theory Spec2Isabelle
  imports Main "HOL-Library.Word"
begin

unbundle bit_operations_syntax

section \<open>JavaScript primitives used by the CRC components\<close>

text \<open>
  The bitwise operators of JavaScript (\<open><<\<close>, \<open>|\<close>, \<open>&\<close>, \<open>^\<close>) convert their operands
  with ToInt32 and return a 32-bit two's complement integer.  The division register of
  both components is only ever the result of such an operator (or the literal 0), so it
  is a \<open>32 word\<close>; \<open>sint\<close> reads it back as the JavaScript number it stands for.
\<close>

type_synonym int32 = "32 word"

text \<open>
  The JavaScript numbers that occur in the two components: NaN, the two infinities, and
  the doubles that hold an integer (\<open>Num n\<close>; not every integer is such a double).
  No fraction is ever computed.
\<close>

datatype number = NaN | Infinity | NegInfinity | Num int

definition toInt32 :: "number \<Rightarrow> int32" where
  "toInt32 x = (case x of Num n \<Rightarrow> word_of_int n | _ \<Rightarrow> 0)"

text \<open>
  The conversion of a mathematical integer to a number: integers of magnitude below
  \<open>2 ^ 53\<close> are exact, larger ones are rounded to 53 significant bits (to nearest, ties
  to even), and what rounds to \<open>2 ^ 1024\<close> or more is infinite.
\<close>

function bitLength :: "nat \<Rightarrow> nat" where
  "bitLength n = (if n = 0 then 0 else 1 + bitLength (n div 2))"
  by pat_completeness auto
termination
  by (relation "measure (\<lambda>n. n)") auto

declare bitLength.simps [simp del]

definition roundMagnitude :: "nat \<Rightarrow> nat" where
  "roundMagnitude m =
     (if m < 2 ^ 53 then m
      else (let e = bitLength m - 53;
                q = m div 2 ^ e;
                r = m mod 2 ^ e;
                half = 2 ^ (e - 1);
                q' = (if half < r \<or> (r = half \<and> odd q) then q + 1 else q)
            in q' * 2 ^ e))"

definition toNumber :: "int \<Rightarrow> number" where
  "toNumber v =
     (let m = roundMagnitude (nat \<bar>v\<bar>)
      in if 2 ^ 1024 \<le> m then (if v < 0 then NegInfinity else Infinity)
         else Num (if v < 0 then - int m else int m))"

text \<open>
  A \<open>char\<close> stands for a UTF-16 code unit below 256; the strings of the two components
  that matter here are ASCII.  White space below 256 is the six ASCII characters and the
  no-break space.
\<close>

definition isWhiteSpace :: "char \<Rightarrow> bool" where
  "isWhiteSpace c =
     (c \<in> set [CHR 0x09, CHR 0x0A, CHR 0x0B, CHR 0x0C, CHR 0x0D, CHR 0x20, CHR 0xA0])"

definition digitValue :: "char \<Rightarrow> nat option" where
  "digitValue c =
     (let n = (of_char c :: nat) in
      if 48 \<le> n \<and> n \<le> 57 then Some (n - 48)
      else if 97 \<le> n \<and> n \<le> 122 then Some (n - 87)
      else if 65 \<le> n \<and> n \<le> 90 then Some (n - 55)
      else None)"

definition isRadixDigit :: "nat \<Rightarrow> char \<Rightarrow> bool" where
  "isRadixDigit R c = (case digitValue c of None \<Rightarrow> False | Some d \<Rightarrow> d < R)"

definition digitsValue :: "nat \<Rightarrow> string \<Rightarrow> nat" where
  "digitsValue R z =
     foldl (\<lambda>a c. case digitValue c of None \<Rightarrow> a | Some d \<Rightarrow> a * R + d) 0 z"

text \<open>
  \<open>parseInt(input, radix)\<close>: leading white space is skipped, an optional sign is read,
  a \<open>0x\<close> prefix is skipped when the radix is 16 or absent, and the longest prefix of
  digits of the radix is the mathematical value, which is then converted to a number;
  no digit at all gives NaN.  \<open>radix = None\<close> is the one-argument call.  (In radix 10
  an implementation may replace the digits after the 20th by zeros before converting;
  such values are beyond \<open>10 ^ 20\<close>, where only their being out of range matters here.)
\<close>

definition parseInt :: "string \<Rightarrow> nat option \<Rightarrow> number" where
  "parseInt input radix =
     (let s0 = dropWhile isWhiteSpace input;
          neg = (s0 \<noteq> [] \<and> hd s0 = CHR ''-'');
          s1 = (if s0 \<noteq> [] \<and> (hd s0 = CHR ''+'' \<or> hd s0 = CHR ''-'') then tl s0 else s0);
          hexPrefix = (take 2 s1 = ''0x'' \<or> take 2 s1 = ''0X'');
          given = (case radix of None \<Rightarrow> 0 | Some r \<Rightarrow> r);
          R = (if given = 0 then (if hexPrefix then 16 else 10) else given);
          s2 = (if (given = 0 \<or> given = 16) \<and> hexPrefix then drop 2 s1 else s1);
          z = takeWhile (isRadixDigit R) s2
      in if R < 2 \<or> 36 < R \<or> z = [] then NaN
         else toNumber ((if neg then - 1 else 1) * int (digitsValue R z)))"

definition digitChar :: "nat \<Rightarrow> char" where
  "digitChar d = ''0123456789abcdefghijklmnopqrstuvwxyz'' ! d"

function natToString :: "nat \<Rightarrow> nat \<Rightarrow> string" where
  "natToString R n =
     (if n < R \<or> R < 2 then [digitChar n]
      else natToString R (n div R) @ [digitChar (n mod R)])"
  by pat_completeness auto
termination
  by (relation "measure (\<lambda>(R, n). n)") auto

declare natToString.simps [simp del]

text \<open>
  \<open>Number.prototype.toString(radix)\<close>; on a double that holds an integer the digits are
  exact in radix 2 and 16.
\<close>

definition numberToString :: "nat \<Rightarrow> number \<Rightarrow> string" where
  "numberToString R x =
     (case x of
        NaN \<Rightarrow> ''NaN''
      | Infinity \<Rightarrow> ''Infinity''
      | NegInfinity \<Rightarrow> ''-Infinity''
      | Num n \<Rightarrow> if n < 0 then CHR ''-'' # natToString R (nat (- n))
                 else natToString R (nat n))"

text \<open>\<open>s.padStart(n, c)\<close> with a one-character pad string, and \<open>c.repeat(n)\<close>.\<close>

definition padStart :: "nat \<Rightarrow> char \<Rightarrow> string \<Rightarrow> string" where
  "padStart n c s = replicate (n - length s) c @ s"

definition repeat :: "char \<Rightarrow> nat \<Rightarrow> string" where
  "repeat c n = replicate n c"

definition toUpperChar :: "char \<Rightarrow> char" where
  "toUpperChar c =
     (let n = (of_char c :: nat) in if 97 \<le> n \<and> n \<le> 122 then char_of (n - 32) else c)"

text \<open>
  \<open>toUpperCase\<close> is applied to ASCII text only: the output of \<open>toString\<close>, and in
  the statements below valid hexadecimal strings.
\<close>

definition toUpperCase :: "string \<Rightarrow> string" where
  "toUpperCase s = map toUpperChar s"

text \<open>The regular expressions \<open>/^[01]+$/\<close> and \<open>/^[0-9A-Fa-f]+$/\<close>.\<close>

definition isBit :: "char \<Rightarrow> bool" where
  "isBit c = (c = CHR ''0'' \<or> c = CHR ''1'')"

definition isHexDigit :: "char \<Rightarrow> bool" where
  "isHexDigit c =
     (let n = (of_char c :: nat) in
      (48 \<le> n \<and> n \<le> 57) \<or> (65 \<le> n \<and> n \<le> 70) \<or> (97 \<le> n \<and> n \<le> 102))"

definition testBinary :: "string \<Rightarrow> bool" where
  "testBinary s = (s \<noteq> [] \<and> list_all isBit s)"

definition testHex :: "string \<Rightarrow> bool" where
  "testHex s = (s \<noteq> [] \<and> list_all isHexDigit s)"

section \<open>ProblemSolver.tsx\<close>

record CRCPolynomial =
  name :: string
  polynomial :: int
  width :: nat
  binaryStr :: string
  formula :: string

text \<open>
  The registry; the formulas are display text and are written here in ASCII.  A width is
  a natural number: every caller passes a width of the registry (or the encoder's 4), and
  on a negative width \<open>repeat\<close> would throw a RangeError.
\<close>

definition CRC_POLYNOMIALS :: "(string \<times> CRCPolynomial) list" where
  "CRC_POLYNOMIALS =
     [(''CRC-4'', \<lparr>name = ''CRC-4'', polynomial = 19, width = 4,
                  binaryStr = ''10011'', formula = ''z^4 + z + 1''\<rparr>),
      (''CRC-5-ITU'', \<lparr>name = ''CRC-5-ITU'', polynomial = 37, width = 5,
                  binaryStr = ''100101'', formula = ''z^5 + z^2 + 1''\<rparr>),
      (''CRC-7'', \<lparr>name = ''CRC-7'', polynomial = 137, width = 7,
                  binaryStr = ''10001001'', formula = ''z^7 + z^3 + 1''\<rparr>),
      (''CRC-8'', \<lparr>name = ''CRC-8'', polynomial = 263, width = 8,
                  binaryStr = ''100000111'', formula = ''z^8 + z^2 + z + 1''\<rparr>)]"

definition hexToBinary :: "string \<Rightarrow> string" where
  "hexToBinary hex =
     padStart (length hex * 4) (CHR ''0'') (numberToString 2 (parseInt hex (Some 16)))"

definition binaryToHex :: "string \<Rightarrow> string" where
  "binaryToHex binary = toUpperCase (numberToString 16 (parseInt binary (Some 2)))"

text \<open>
  One iteration of the division loop shared by \<open>calculateCRC\<close> and \<open>verifyCRC\<close>:
  \<open>register = (register << 1) | bit\<close>, then \<open>register ^= polynomial\<close> when
  \<open>register & (1 << width)\<close> is non-zero.  The shift count of \<open><<\<close> is taken modulo 32.
\<close>

definition shiftIn :: "int32 \<Rightarrow> char \<Rightarrow> int32" where
  "shiftIn reg c = push_bit 1 reg OR toInt32 (parseInt [c] None)"

definition topBit :: "nat \<Rightarrow> int32" where
  "topBit w = push_bit (w mod 32) 1"

definition divStep :: "int \<Rightarrow> nat \<Rightarrow> int32 \<Rightarrow> char \<Rightarrow> int32" where
  "divStep poly w reg c =
     (let reg' = shiftIn reg c
      in if reg' AND topBit w \<noteq> 0 then reg' XOR toInt32 (Num poly) else reg')"

fun divLoop :: "int \<Rightarrow> nat \<Rightarrow> string \<Rightarrow> int32 \<Rightarrow> int32" where
  "divLoop poly w [] reg = reg"
| "divLoop poly w (c # cs) reg = divLoop poly w cs (divStep poly w reg c)"

text \<open>\<open>(register & ((1 << width) - 1)).toString(2).padStart(width, "0")\<close>.\<close>

definition lowMask :: "nat \<Rightarrow> int32" where
  "lowMask w = toInt32 (Num (sint (topBit w) - 1))"

definition remainderString :: "nat \<Rightarrow> int32 \<Rightarrow> string" where
  "remainderString w reg =
     padStart w (CHR ''0'') (numberToString 2 (Num (sint (reg AND lowMask w))))"

definition calculateCRC :: "string \<Rightarrow> int \<Rightarrow> nat \<Rightarrow> string" where
  "calculateCRC dat poly w =
     (let bits = dat @ repeat (CHR ''0'') w
      in remainderString w (divLoop poly w bits 0))"

record VerifyResult =
  isValid :: bool
  remainder :: string

definition verifyCRC :: "string \<Rightarrow> int \<Rightarrow> nat \<Rightarrow> VerifyResult" where
  "verifyCRC dataWithCRC poly w =
     (let rem = remainderString w (divLoop poly w dataWithCRC 0)
      in \<lparr>isValid = (rem = repeat (CHR ''0'') w), remainder = rem\<rparr>)"

datatype InputFormat = Binary | Hex

text \<open>
  The component state (the \<open>useState\<close> cells) and what a handler reports: a toast, or
  the TypeError of reading a property of \<open>undefined\<close> when the selected key is not in
  the registry.
\<close>

record PSState =
  selectedCRC :: string
  inputFormat :: InputFormat
  hexInput :: string
  binaryInput :: string
  encodedResult :: string
  crcBits :: string
  receivedData :: string
  errorPositions :: string
  corruptedData :: string
  verificationResult :: string
  errorVector :: string
  undetectableError :: bool

datatype outcome = ToastError string | ToastSuccess string | ToastInfo string | TypeError

definition handleEncode :: "PSState \<Rightarrow> outcome \<times> PSState" where
  "handleEncode st =
     (let crcConfig = map_of CRC_POLYNOMIALS (selectedCRC st) in
      if inputFormat st = Hex \<and> \<not> testHex (hexInput st)
        then (ToastError ''Invalid hex input'', st)
      else if inputFormat st = Binary \<and> \<not> testBinary (binaryInput st)
        then (ToastError ''Invalid binary input'', st)
      else
        (let binaryData = (if inputFormat st = Hex then hexToBinary (hexInput st)
                           else binaryInput st)
         in case crcConfig of
              None \<Rightarrow> (TypeError, st)
            | Some cfg \<Rightarrow>
                (let crcv = calculateCRC binaryData (polynomial cfg) (width cfg);
                     encoded = binaryData @ crcv
                 in (ToastSuccess ''Data encoded successfully!'',
                     st\<lparr>crcBits := crcv, encodedResult := encoded,
                        receivedData := encoded\<rparr>))))"

text \<open>\<open>s.split(",")\<close> and \<open>s.trim()\<close>.\<close>

fun split :: "char \<Rightarrow> string \<Rightarrow> string list" where
  "split sep [] = [[]]"
| "split sep (x # xs) =
     (if x = sep then [] # split sep xs
      else (let r = split sep xs in (x # hd r) # tl r))"

definition trim :: "string \<Rightarrow> string" where
  "trim s = rev (dropWhile isWhiteSpace (rev (dropWhile isWhiteSpace s)))"

definition isNaN :: "number \<Rightarrow> bool" where
  "isNaN x = (x = NaN)"

definition parsePositions :: "string \<Rightarrow> number list" where
  "parsePositions text =
     filter (\<lambda>p. \<not> isNaN p) (map (\<lambda>p. parseInt (trim p) None) (split (CHR '','') text))"

text \<open>
  The body of the \<open>forEach\<close>: a position inside the array flips its character (anything
  that is not "0" becomes "0"); any other position, NaN and the infinities included, fails
  the guard.
\<close>

definition flipAt :: "string \<Rightarrow> number \<Rightarrow> string" where
  "flipAt corruptedBits pos =
     (case pos of
        Num p \<Rightarrow>
          if 0 \<le> p \<and> p < int (length corruptedBits)
          then corruptedBits[nat p :=
                 (if corruptedBits ! nat p = CHR ''0'' then CHR ''1'' else CHR ''0'')]
          else corruptedBits
      | _ \<Rightarrow> corruptedBits)"

fun flipAll :: "string \<Rightarrow> number list \<Rightarrow> string" where
  "flipAll corruptedBits [] = corruptedBits"
| "flipAll corruptedBits (pos # rest) = flipAll (flipAt corruptedBits pos) rest"

definition injectErrors :: "string \<Rightarrow> number list \<Rightarrow> string" where
  "injectErrors encoded positions = flipAll encoded positions"

definition handleInjectError :: "PSState \<Rightarrow> outcome \<times> PSState" where
  "handleInjectError st =
     (if encodedResult st = [] then (ToastError ''Please encode data first'', st)
      else
        (let positions = parsePositions (errorPositions st) in
         if length positions = 0
           then (ToastError ''Please enter valid bit positions (e.g., 2,3,4)'', st)
         else
           (let corrupted = injectErrors (encodedResult st) positions in
            case map_of CRC_POLYNOMIALS (selectedCRC st) of
              None \<Rightarrow> (TypeError, st\<lparr>corruptedData := corrupted\<rparr>)
            | Some cfg \<Rightarrow>
                (let r = verifyCRC corrupted (polynomial cfg) (width cfg)
                 in (ToastInfo ''Error injected'',
                     st\<lparr>corruptedData := corrupted,
                        verificationResult :=
                          ''Remainder: '' @ remainder r @ '' ('' @ binaryToHex (remainder r)
                          @ ''h) - '' @ (if isValid r then ''Valid'' else ''Error detected!'')\<rparr>)))))"

definition handleGenerateErrorVector :: "PSState \<Rightarrow> outcome \<times> PSState" where
  "handleGenerateErrorVector st =
     (case map_of CRC_POLYNOMIALS (selectedCRC st) of
        None \<Rightarrow> (TypeError, st)
      | Some cfg \<Rightarrow>
          (let errorBits = padStart (width cfg + 1) (CHR ''0'')
                             (numberToString 2 (Num (polynomial cfg)))
                           @ repeat (CHR ''0'') 3;
               r = verifyCRC errorBits (polynomial cfg) (width cfg)
           in (ToastSuccess ''Error vector generated'',
               st\<lparr>errorVector := errorBits, undetectableError := isValid r\<rparr>)))"

section \<open>CRCEncoder.tsx\<close>

definition POLYNOMIAL :: int where
  "POLYNOMIAL = 19"

definition CRC_WIDTH :: nat where
  "CRC_WIDTH = 4"

record EncodingStep =
  step :: nat
  data :: string
  register :: string
  operation :: string

text \<open>
  The loop of the encoder's \<open>calculateCRC\<close>, which also records one step per input bit.
  \<open>i\<close> is the loop index and \<open>rest\<close> the characters from index \<open>i\<close> on.
\<close>

fun encLoop :: "string \<Rightarrow> string \<Rightarrow> nat \<Rightarrow> int32 \<Rightarrow> EncodingStep list
                \<Rightarrow> int32 \<times> EncodingStep list" where
  "encLoop bits [] i reg calculationSteps = (reg, calculationSteps)"
| "encLoop bits (c # rest) i reg calculationSteps =
     (let reg' = push_bit 1 reg OR toInt32 (parseInt [c] None);
          registerBinary = padStart 5 (CHR ''0'') (numberToString 2 (Num (sint reg')));
          steps' = calculationSteps @
                   [\<lparr>step = i + 1, data = take (i + 1) bits, register = registerBinary,
                     operation = (if reg' AND 16 \<noteq> 0 then ''XOR with polynomial''
                                  else ''Shift left'')\<rparr>];
          reg'' = (if reg' AND 16 \<noteq> 0 then reg' XOR toInt32 (Num POLYNOMIAL) else reg')
      in encLoop bits rest (i + 1) reg'' steps')"

record EncoderResult =
  crc :: string
  steps :: "EncodingStep list"

definition encCalculateCRC :: "string \<Rightarrow> EncoderResult" where
  "encCalculateCRC dat =
     (let bits = dat @ ''0000'';
          (reg, calculationSteps) = encLoop bits bits 0 0 []
      in \<lparr>crc = padStart CRC_WIDTH (CHR ''0'') (numberToString 2 (Num (sint (reg AND 15)))),
          steps = calculationSteps\<rparr>)"

record EncState =
  inputData :: string
  encodedData :: string
  encCrcBits :: string
  encSteps :: "EncodingStep list"
  testData :: string
  encIsValid :: "bool option"

definition encHandleEncode :: "EncState \<Rightarrow> EncState" where
  "encHandleEncode st =
     (if \<not> testBinary (inputData st) then st
      else
        (let r = encCalculateCRC (inputData st)
         in st\<lparr>encCrcBits := crc r, encodedData := inputData st @ crc r,
               encSteps := steps r, encIsValid := None\<rparr>))"

text \<open>
  \<open>slice(0, -n)\<close> and \<open>slice(-n)\<close>: on a string shorter than \<open>n\<close> the first is empty and
  the second the whole string, which is what truncating subtraction gives.
\<close>

definition sliceInit :: "string \<Rightarrow> nat \<Rightarrow> string" where
  "sliceInit s n = take (length s - n) s"

definition sliceLast :: "string \<Rightarrow> nat \<Rightarrow> string" where
  "sliceLast s n = drop (length s - n) s"

definition handleVerify :: "EncState \<Rightarrow> EncState" where
  "handleVerify st =
     (if \<not> testBinary (testData st) \<or> length (testData st) < CRC_WIDTH then st
      else
        (let dataWithoutCRC = sliceInit (testData st) CRC_WIDTH;
             receivedCRC = sliceLast (testData st) CRC_WIDTH;
             calculatedCRC = crc (encCalculateCRC dataWithoutCRC)
         in st\<lparr>encIsValid := Some (receivedCRC = calculatedCRC)\<rparr>))"

definition initialEncState :: EncState where
  "initialEncState =
     \<lparr>inputData = ''1010'', encodedData = [], encCrcBits = [], encSteps = [],
      testData = [], encIsValid = None\<rparr>"

section \<open>The initial state of ProblemSolver\<close>

definition initialPSState :: PSState where
  "initialPSState =
     \<lparr>selectedCRC = ''CRC-4'', inputFormat = Hex, hexInput = ''B1D'', binaryInput = [],
      encodedResult = [], crcBits = [], receivedData = [], errorPositions = [],
      corruptedData = [], verificationResult = [], errorVector = [],
      undetectableError = False\<rparr>"

section \<open>The division engine as the specification words it\<close>

text \<open>
  The reference algorithm of the specification, written from its words and independent of
  the code: a register of unbounded width that starts at 0; each bit is shifted in, and
  when bit \<open>width\<close> of the register is set the register is XORed with the polynomial; the
  result is the low \<open>width\<close> bits of the register, most significant first, as characters.
  Input that is not binary is \<open>InvalidInput\<close>, a width of 0 or above 32 is
  \<open>InvalidConfig\<close>.
\<close>

datatype error = InvalidInput | InvalidConfig

definition spec_bit :: "char \<Rightarrow> nat" where
  "spec_bit c = (if c = CHR ''1'' then 1 else 0)"

definition spec_step :: "nat \<Rightarrow> nat \<Rightarrow> nat \<Rightarrow> nat \<Rightarrow> nat" where
  "spec_step poly w reg b =
     (let r = push_bit 1 reg OR b in if bit r w then r XOR poly else r)"

definition spec_remainder :: "nat \<Rightarrow> nat \<Rightarrow> string" where
  "spec_remainder w reg = map (\<lambda>i. if bit reg i then CHR ''1'' else CHR ''0'') (rev [0..<w])"

definition spec_divide :: "string \<Rightarrow> nat \<Rightarrow> nat \<Rightarrow> error + string" where
  "spec_divide bits poly w =
     (if \<not> list_all isBit bits then Inl InvalidInput
      else if w = 0 \<or> 32 < w then Inl InvalidConfig
      else Inr (spec_remainder w (foldl (spec_step poly w) 0 (map spec_bit bits))))"

section \<open>Auxiliary notions for the proofs\<close>

text \<open>The \<open>n\<close> low digits of \<open>v\<close> in radix \<open>R\<close>, most significant first.\<close>

fun fixedDigits :: "nat \<Rightarrow> nat \<Rightarrow> nat \<Rightarrow> string" where
  "fixedDigits R 0 v = []"
| "fixedDigits R (Suc n) v = fixedDigits R n (v div R) @ [digitChar (v mod R)]"

text \<open>A digit string without its leading zeros; an all-zero string becomes \<open>0\<close>.\<close>

definition stripLeadingZeros :: "string \<Rightarrow> string" where
  "stripLeadingZeros s =
     (let t = dropWhile (\<lambda>c. c = CHR ''0'') s in if t = [] then ''0'' else t)"


section \<open>Bits, digits and the linearity of the division loop\<close>

lemma toNumber_small:
  assumes "nat \<bar>v\<bar> < 2 ^ 53"
  shows "toNumber v = Num v"
proof -
  have r: "roundMagnitude (nat \<bar>v\<bar>) = nat \<bar>v\<bar>"
    using assms by (simp add: roundMagnitude_def)
  have "(2::nat) ^ 53 \<le> 2 ^ 1024"
    by (intro power_increasing) simp_all
  with assms have "\<not> 2 ^ 1024 \<le> nat \<bar>v\<bar>"
    by linarith
  then show ?thesis
    unfolding toNumber_def r Let_def by auto
qed

lemma toNumber_0: "toNumber 0 = Num 0"
  by (rule toNumber_small) simp

lemma toNumber_1: "toNumber 1 = Num 1"
  by (rule toNumber_small) simp

lemmas parseInt_simps = parseInt_def isWhiteSpace_def isRadixDigit_def digitValue_def
  digitsValue_def Let_def toNumber_0 toNumber_1

lemma parseInt_0: "parseInt [CHR ''0''] None = Num 0"
  by (simp add: parseInt_simps)

lemma parseInt_1: "parseInt [CHR ''1''] None = Num 1"
  by (simp add: parseInt_simps)

lemma parseInt_bit: "isBit c \<Longrightarrow> parseInt [c] None = Num (if c = CHR ''1'' then 1 else 0)"
  unfolding isBit_def using parseInt_0 parseInt_1 by auto

lemma shiftIn_bit: "isBit c \<Longrightarrow> shiftIn reg c = push_bit 1 reg OR (if c = CHR ''1'' then 1 else 0)"
  by (simp add: shiftIn_def parseInt_bit toInt32_def)

lemma bit_shiftIn:
  assumes "isBit c"
  shows "bit (shiftIn r c) n = (if n = 0 then c = CHR ''1'' else n < 32 \<and> bit r (n - 1))"
proof -
  have "bit (shiftIn r c) n = (bit (push_bit 1 r) n \<or> bit (if c = CHR ''1'' then 1 else 0 :: int32) n)"
    unfolding shiftIn_bit [OF assms] bit_or_iff ..
  also have "bit (push_bit 1 r) n = (n \<noteq> 0 \<and> n < 32 \<and> bit r (n - 1))"
    unfolding bit_push_bit_iff by (auto simp: possible_bit_word dest: bit_imp_le_length)
  also have "bit (if c = CHR ''1'' then 1 else 0 :: int32) n = (n = 0 \<and> c = CHR ''1'')"
    by (simp add: bit_1_iff)
  finally show ?thesis by auto
qed


lemma isBit_0: "isBit (CHR ''0'')"
  by (simp add: isBit_def)

lemma shiftIn_xor:
  assumes "isBit c"
  shows "shiftIn (r XOR s) c = shiftIn r (CHR ''0'') XOR shiftIn s c"
proof (rule bit_word_eqI)
  fix n assume "n < LENGTH(32)"
  show "bit (shiftIn (r XOR s) c) n = bit (shiftIn r (CHR ''0'') XOR shiftIn s c) n"
    unfolding bit_xor_iff bit_shiftIn [OF assms] bit_shiftIn [OF isBit_0] by auto
qed

lemma top_test:
  assumes "isBit c" "1 \<le> w" "w \<le> 31"
  shows "(shiftIn r c AND topBit w \<noteq> 0) = bit r (w - 1)"
proof -
  have "topBit w = 2 ^ w" using assms by (simp add: topBit_def)
  then have "shiftIn r c AND topBit w \<noteq> 0 \<longleftrightarrow> bit (shiftIn r c) w"
    by (simp add: and_exp_eq_0_iff_not_bit)
  also have "\<dots> = bit r (w - 1)"
    using assms by (simp add: bit_shiftIn)
  finally show ?thesis .
qed

lemma divStep_alt:
  assumes "isBit c" "1 \<le> w" "w \<le> 31"
  shows "divStep p w r c = shiftIn r c XOR (if bit r (w - 1) then toInt32 (Num p) else 0)"
  using assms by (simp add: divStep_def Let_def top_test)

lemma xor_cancel_aux: "(a::int32) XOR b XOR (c XOR b) = a XOR c"
  by (metis xor.assoc xor.commute xor_self_eq xor.right_neutral)

lemma divStep_xor:
  assumes "isBit c" "1 \<le> w" "w \<le> 31"
  shows "divStep p w (r XOR s) c = divStep p w r (CHR ''0'') XOR divStep p w s c"
proof -
  let ?P = "toInt32 (Num p)"
  let ?a = "shiftIn r (CHR ''0'')" and ?b = "shiftIn s c"
  have L: "divStep p w (r XOR s) c = ?a XOR ?b XOR (if bit r (w - 1) \<noteq> bit s (w - 1) then ?P else 0)"
    by (simp add: divStep_alt [OF assms] shiftIn_xor [OF assms(1)] bit_xor_iff xor.assoc)
  have R: "divStep p w r (CHR ''0'') XOR divStep p w s c
      = (?a XOR (if bit r (w - 1) then ?P else 0)) XOR (?b XOR (if bit s (w - 1) then ?P else 0))"
    by (simp add: divStep_alt [OF assms] divStep_alt [OF isBit_0 assms(2,3)])
  show ?thesis unfolding L R
    by (cases "bit r (w - 1)"; cases "bit s (w - 1)")
       (simp_all add: xor_cancel_aux xor.assoc xor.left_commute xor.commute)
qed

lemma divLoop_xor:
  assumes "list_all isBit cs" "1 \<le> w" "w \<le> 31"
  shows "divLoop p w cs (r XOR s) = divLoop p w (replicate (length cs) (CHR ''0'')) r XOR divLoop p w cs s"
  using assms(1)
proof (induction cs arbitrary: r s)
  case Nil
  then show ?case by simp
next
  case (Cons c cs)
  then show ?case using assms(2,3) by (simp add: divStep_xor)
qed

lemma divLoop_append: "divLoop p w (xs @ ys) r = divLoop p w ys (divLoop p w xs r)"
  by (induction xs arbitrary: r) simp_all


lemma digit_table:
  "list_all (\<lambda>d. digitValue (digitChar d) = Some d)
     [0, 1, 2, 3, 4, 5, 6, 7, 8, 9, 10, 11, 12, 13, 14, 15]"
  by (simp add: digitValue_def digitChar_def)

lemma digitValue_digitChar:
  assumes "d < 16"
  shows "digitValue (digitChar d) = Some d"
proof -
  from assms have "d \<in> set [0, 1, 2, 3, 4, 5, 6, 7, 8, 9, 10, 11, 12, 13, 14, 15]"
    by simp arith
  with digit_table show ?thesis
    unfolding list_all_iff by blast
qed

lemma digitChar_0: "digitChar 0 = CHR ''0''"
  by (simp add: digitChar_def)

lemma digitChar_1: "digitChar (Suc 0) = CHR ''1''"
  by (simp add: digitChar_def)

lemma length_fixedDigits: "length (fixedDigits R n v) = n"
  by (induction n arbitrary: v) simp_all

lemma fixedDigits_zero: "fixedDigits R n 0 = replicate n (CHR ''0'')"
  by (induction n) (simp_all add: digitChar_0 replicate_append_same)

lemma padStart_snoc: "padStart (Suc n) c (xs @ [y]) = padStart n c xs @ [y]"
  by (simp add: padStart_def)

lemma padStart_fixedDigits:
  assumes "2 \<le> R"
  shows "v < R ^ n \<Longrightarrow> 1 \<le> n \<Longrightarrow> padStart n (CHR ''0'') (natToString R v) = fixedDigits R n v"
proof (induction n arbitrary: v)
  case 0
  then show ?case by simp
next
  case (Suc n)
  show ?case
  proof (cases "v < R")
    case True
    then have "natToString R v = [digitChar v]"
      by (subst natToString.simps) simp
    moreover have "padStart (Suc n) (CHR ''0'') [digitChar v] = replicate n (CHR ''0'') @ [digitChar v]"
      by (simp add: padStart_def)
    ultimately show ?thesis using True by (simp add: fixedDigits_zero)
  next
    case False
    then have ns: "natToString R v = natToString R (v div R) @ [digitChar (v mod R)]"
      using assms by (subst natToString.simps) simp
    have "v div R < R ^ n"
      using Suc.prems(1) assms by (simp add: less_mult_imp_div_less mult.commute)
    moreover have "1 \<le> n"
    proof (rule ccontr)
      assume "\<not> 1 \<le> n"
      then have "n = 0" by simp
      with Suc.prems(1) False show False by simp
    qed
    ultimately have "padStart n (CHR ''0'') (natToString R (v div R)) = fixedDigits R n (v div R)"
      by (rule Suc.IH)
    then show ?thesis by (simp add: ns padStart_snoc)
  qed
qed

lemma digitsValue_snoc:
  "digitsValue R (xs @ [c]) =
     (case digitValue c of None \<Rightarrow> digitsValue R xs | Some d \<Rightarrow> digitsValue R xs * R + d)"
  by (simp add: digitsValue_def split: option.split)

lemma digitsValue_Nil: "digitsValue R [] = 0"
  by (simp add: digitsValue_def)

lemma digitsValue_fixedDigits:
  assumes "2 \<le> R" "R \<le> 16"
  shows "digitsValue R (fixedDigits R n v) = v mod R ^ n"
proof (induction n arbitrary: v)
  case 0
  then show ?case by (simp add: digitsValue_Nil)
next
  case (Suc n)
  from assms have "0 < R" by simp
  then have "v mod R < R" by (rule mod_less_divisor)
  then have "v mod R < 16" using assms(2) by (rule less_le_trans)
  then have "digitValue (digitChar (v mod R)) = Some (v mod R)"
    by (rule digitValue_digitChar)
  then have "digitsValue R (fixedDigits R (Suc n) v) = (v div R mod R ^ n) * R + v mod R"
    by (simp add: digitsValue_snoc Suc.IH)
  also have "\<dots> = v mod R ^ Suc n"
    by (simp add: mod_mult2_eq mult.commute)
  finally show ?case .
qed

lemma radixDigit_fixedDigits:
  assumes "2 \<le> R" "R \<le> 16"
  shows "list_all (isRadixDigit R) (fixedDigits R n v)"
proof (induction n arbitrary: v)
  case 0
  then show ?case by simp
next
  case (Suc n)
  from assms have "0 < R" by simp
  then have lt: "v mod R < R" by (rule mod_less_divisor)
  then have "v mod R < 16" using assms(2) by (rule less_le_trans)
  then have "digitValue (digitChar (v mod R)) = Some (v mod R)"
    by (rule digitValue_digitChar)
  then have "isRadixDigit R (digitChar (v mod R))"
    using lt by (simp add: isRadixDigit_def)
  then show ?case by (simp add: Suc.IH)
qed

lemma isBit_fixedDigits: "list_all isBit (fixedDigits 2 n v)"
proof (induction n arbitrary: v)
  case 0
  then show ?case by simp
next
  case (Suc n)
  have "v mod 2 = 0 \<or> v mod 2 = Suc 0" by auto
  then have "isBit (digitChar (v mod 2))"
    by (auto simp: isBit_def digitChar_0 digitChar_1)
  then show ?case by (simp add: Suc.IH)
qed

lemma digitValue_bit: "isBit c \<Longrightarrow> digitValue c = Some (if c = CHR ''1'' then 1 else 0)"
  by (auto simp: isBit_def digitValue_def)

lemma fixedDigits_digitsValue:
  "list_all isBit t \<Longrightarrow> fixedDigits 2 (length t) (digitsValue 2 t) = t"
proof (induction t rule: rev_induct)
  case Nil
  then show ?case by simp
next
  case (snoc c t)
  then have b: "isBit c" and t: "list_all isBit t" by simp_all
  show ?case
    using b snoc.IH [OF t]
    by (auto simp: digitsValue_snoc digitValue_bit isBit_def digitChar_0 digitChar_1)
qed

lemma digitsValue_bound: "list_all isBit t \<Longrightarrow> digitsValue 2 t < 2 ^ length t"
proof (induction t rule: rev_induct)
  case Nil
  then show ?case by (simp add: digitsValue_Nil)
next
  case (snoc c t)
  then have b: "isBit c" and t: "digitsValue 2 t < 2 ^ length t" by simp_all
  show ?case using b t by (auto simp: digitsValue_snoc digitValue_bit)
qed

lemma shiftIn_arith:
  assumes "isBit c"
  shows "shiftIn r c = 2 * r + (if c = CHR ''1'' then 1 else 0)"
proof -
  have "push_bit 1 r = 2 * r" by (simp add: push_bit_eq_mult)
  then show ?thesis
    unfolding shiftIn_bit [OF assms] by (simp add: or_one_eq)
qed

lemma not_bit_small: "(v::nat) < 2 ^ k \<Longrightarrow> \<not> bit v k"
  by (simp add: bit_iff_odd)

lemma divLoop_snoc: "divLoop p w (cs @ [c]) r = divStep p w (divLoop p w cs r) c"
  by (simp add: divLoop_append)

lemma divLoop_short:
  assumes "1 \<le> w" "w \<le> 31"
  shows "list_all isBit cs \<Longrightarrow> length cs \<le> w \<Longrightarrow> divLoop p w cs 0 = word_of_nat (digitsValue 2 cs)"
proof (induction cs rule: rev_induct)
  case Nil
  then show ?case by (simp add: digitsValue_Nil)
next
  case (snoc c cs)
  then have b: "isBit c" and bs: "list_all isBit cs" and len: "length cs \<le> w - 1" by simp_all
  have IH: "divLoop p w cs 0 = word_of_nat (digitsValue 2 cs)"
    using snoc.IH bs snoc.prems(2) by simp
  have "digitsValue 2 cs < 2 ^ length cs" using bs by (rule digitsValue_bound)
  also have "\<dots> \<le> 2 ^ (w - 1)" using len by simp
  finally have "\<not> bit (digitsValue 2 cs) (w - 1)" by (rule not_bit_small)
  then have nb: "\<not> bit (word_of_nat (digitsValue 2 cs) :: int32) (w - 1)"
    by (simp add: bit_of_nat_iff)
  have "divLoop p w (cs @ [c]) 0 = shiftIn (word_of_nat (digitsValue 2 cs)) c"
    unfolding divLoop_snoc IH using nb by (simp add: divStep_alt [OF b assms])
  also have "\<dots> = word_of_nat (digitsValue 2 (cs @ [c]))"
    using b by (simp add: shiftIn_arith digitsValue_snoc digitValue_bit)
  finally show ?case .
qed

lemma lowMask_eq:
  assumes "w \<le> 31"
  shows "lowMask w = mask w"
proof -
  have "lowMask w = word_of_int (sint (topBit w)) - 1"
    by (simp add: lowMask_def toInt32_def)
  also have "\<dots> = topBit w - 1" by simp
  also have "topBit w = 2 ^ w" using assms by (simp add: topBit_def)
  finally show ?thesis by (simp add: mask_eq_exp_minus_1)
qed

lemma sint_take_bit:
  assumes "w \<le> 31"
  shows "sint (take_bit w (r::int32)) = int (unat (take_bit w r))"
proof -
  have "unat (take_bit w r) < 2 ^ w"
    by (simp add: unsigned_take_bit_eq)
  also have "\<dots> \<le> (2::nat) ^ 31" using assms by (intro power_increasing) simp_all
  finally have "uint (take_bit w r) < 2 ^ 31"
    by (metis of_nat_less_numeral_power_cancel_iff of_nat_unat)
  moreover have "- (2 ^ 31) \<le> uint (take_bit w r)"
    by (rule order_trans [of _ 0]) simp_all
  ultimately have "signed_take_bit 31 (uint (take_bit w r)) = uint (take_bit w r)"
    by (intro signed_take_bit_int_eq_self)
  then show ?thesis
    by (simp add: sint_uint)
qed

lemma remainderString_eq:
  assumes "1 \<le> w" "w \<le> 31"
  shows "remainderString w r = fixedDigits 2 w (unat (take_bit w r))"
proof -
  have lt: "unat (take_bit w r) < 2 ^ w"
    by (simp add: unsigned_take_bit_eq)
  have "remainderString w r = padStart w (CHR ''0'') (natToString 2 (unat (take_bit w r)))"
    using assms(2)
    by (simp add: remainderString_def lowMask_eq numberToString_def sint_take_bit flip: take_bit_eq_mask)
  also have "\<dots> = fixedDigits 2 w (unat (take_bit w r))"
    using lt assms(1) by (intro padStart_fixedDigits) simp_all
  finally show ?thesis .
qed

lemma divLoop_data_check:
  assumes "1 \<le> w" "w \<le> 31" "list_all isBit u" "length u = w"
  shows "divLoop p w (d @ u) 0
       = divLoop p w (d @ replicate w (CHR ''0'')) 0 XOR word_of_nat (digitsValue 2 u)"
proof -
  let ?r = "divLoop p w d 0"
  have "divLoop p w (d @ u) 0 = divLoop p w u (?r XOR 0)"
    by (simp add: divLoop_append)
  also have "\<dots> = divLoop p w (replicate (length u) (CHR ''0'')) ?r XOR divLoop p w u 0"
    using assms(3,1,2) by (rule divLoop_xor)
  also have "divLoop p w u 0 = word_of_nat (digitsValue 2 u)"
    using assms by (intro divLoop_short) simp_all
  finally show ?thesis using assms(4) by (simp add: divLoop_append)
qed

lemma calculateCRC_eq:
  assumes "1 \<le> w" "w \<le> 31"
  shows "calculateCRC d p w
       = fixedDigits 2 w (unat (take_bit w (divLoop p w (d @ replicate w (CHR ''0'')) 0)))"
  by (simp add: calculateCRC_def repeat_def remainderString_eq [OF assms])

lemma calculateCRC_shape:
  assumes "1 \<le> w" "w \<le> 31"
  shows "list_all isBit (calculateCRC d p w)" "length (calculateCRC d p w) = w"
  by (simp_all add: calculateCRC_eq [OF assms] isBit_fixedDigits length_fixedDigits)

lemma fixedDigits_inj:
  assumes "a < 2 ^ w" "b < 2 ^ w" "fixedDigits 2 w a = fixedDigits 2 w b"
  shows "a = b"
proof -
  have "digitsValue 2 (fixedDigits 2 w a) = digitsValue 2 (fixedDigits 2 w b)"
    using assms(3) by simp
  then have "a mod 2 ^ w = b mod 2 ^ w"
    by (simp add: digitsValue_fixedDigits)
  then show ?thesis using assms(1,2) by simp
qed

lemma word_xor_eq_0: "(x::int32) XOR y = 0 \<longleftrightarrow> x = y"
proof
  assume h: "x XOR y = 0"
  have "x = (x XOR y) XOR y"
    by (simp add: xor.assoc)
  also have "\<dots> = y"
    unfolding h by simp
  finally show "x = y" .
next
  assume "x = y"
  then show "x XOR y = 0" by simp
qed

lemma verify_iff:
  assumes "1 \<le> w" "w \<le> 31" "list_all isBit u" "length u = w"
  shows "isValid (verifyCRC (d @ u) p w) \<longleftrightarrow> u = calculateCRC d p w"
proof -
  let ?R = "divLoop p w (d @ replicate w (CHR ''0'')) 0"
  let ?v = "digitsValue 2 u"
  have vlt: "?v < 2 ^ w" using digitsValue_bound [OF assms(3)] assms(4) by simp
  have "(2::nat) ^ w \<le> 2 ^ 31" using assms(2) by (intro power_increasing) simp_all
  with vlt have v32: "?v < 2 ^ 32" by simp
  have tv: "take_bit w (word_of_nat ?v :: int32) = word_of_nat ?v"
    using vlt by (simp add: take_bit_of_nat take_bit_nat_eq_self)
  have uv: "unat (word_of_nat ?v :: int32) = ?v"
    using v32 by (simp add: unsigned_of_nat take_bit_nat_eq_self)
  have gen: "unat (take_bit w x) < 2 ^ w" for x :: int32
    by (simp add: unsigned_take_bit_eq)
  have alt: "unat (take_bit w ?R) < 2 ^ w"
    by (rule gen)
  have z: "unat (take_bit w (?R XOR word_of_nat ?v)) < 2 ^ w"
    by (rule gen)
  have z0: "(0::nat) < 2 ^ w"
    by simp
  have "isValid (verifyCRC (d @ u) p w)
      \<longleftrightarrow> fixedDigits 2 w (unat (take_bit w (?R XOR word_of_nat ?v))) = fixedDigits 2 w 0"
    by (simp add: verifyCRC_def Let_def repeat_def remainderString_eq [OF assms(1,2)]
          divLoop_data_check [OF assms] fixedDigits_zero)
  also have "\<dots> \<longleftrightarrow> unat (take_bit w (?R XOR word_of_nat ?v)) = 0"
    using fixedDigits_inj [OF z z0] by auto
  also have "\<dots> \<longleftrightarrow> take_bit w ?R XOR word_of_nat ?v = 0"
    by (simp add: take_bit_xor tv unsigned_eq_0_iff)
  also have "\<dots> \<longleftrightarrow> take_bit w ?R = word_of_nat ?v"
    by (rule word_xor_eq_0)
  also have "\<dots> \<longleftrightarrow> unat (take_bit w ?R) = ?v"
    using uv by (simp add: word_unat_eq_iff)
  also have "\<dots> \<longleftrightarrow> fixedDigits 2 w (unat (take_bit w ?R)) = fixedDigits 2 w ?v"
    using fixedDigits_inj [OF alt vlt] by auto
  also have "fixedDigits 2 w ?v = u"
    using fixedDigits_digitsValue [OF assms(3)] assms(4) by simp
  finally show ?thesis
    by (auto simp: calculateCRC_eq [OF assms(1,2)])
qed

lemma roundtrip_general:
  assumes "1 \<le> w" "w \<le> 31"
  shows "verifyCRC (d @ calculateCRC d p w) p w = \<lparr>isValid = True, remainder = repeat (CHR ''0'') w\<rparr>"
proof -
  have "isValid (verifyCRC (d @ calculateCRC d p w) p w)"
    using verify_iff [OF assms calculateCRC_shape [OF assms]] by simp
  then show ?thesis
    by (simp add: verifyCRC_def Let_def)
qed

lemma registry_cases:
  assumes "(k, cfg) \<in> set CRC_POLYNOMIALS"
  shows "(polynomial cfg, width cfg) \<in> {(19, 4), (37, 5), (137, 7), (263, 8)}"
  using assms by (auto simp: CRC_POLYNOMIALS_def)

lemma registry_width:
  assumes "(k, cfg) \<in> set CRC_POLYNOMIALS"
  shows "1 \<le> width cfg" "width cfg \<le> 31"
  using registry_cases [OF assms] by auto

lemma encLoop_divLoop:
  "fst (encLoop bits rest i reg acc) = divLoop POLYNOMIAL CRC_WIDTH rest reg"
proof (induction rest arbitrary: i reg acc)
  case Nil
  then show ?case by simp
next
  case (Cons c rest)
  have "topBit CRC_WIDTH = 16" by (simp add: topBit_def CRC_WIDTH_def)
  then show ?case
    by (simp add: Cons.IH Let_def divStep_def shiftIn_def)
qed

lemma encCalculateCRC_crc: "crc (encCalculateCRC d) = calculateCRC d POLYNOMIAL CRC_WIDTH"
proof -
  have m: "lowMask CRC_WIDTH = 15" by (simp add: lowMask_eq CRC_WIDTH_def mask_eq_exp_minus_1)
  have "crc (encCalculateCRC d)
      = remainderString CRC_WIDTH (fst (encLoop (d @ ''0000'') (d @ ''0000'') 0 0 []))"
    by (simp add: encCalculateCRC_def remainderString_def m Let_def split: prod.split)
  also have "\<dots> = calculateCRC d POLYNOMIAL CRC_WIDTH"
  proof -
    have "replicate CRC_WIDTH (CHR ''0'') = ''0000''"
      by (simp add: CRC_WIDTH_def numeral_eq_Suc)
    then show ?thesis
      by (simp add: encLoop_divLoop calculateCRC_def repeat_def)
  qed
  finally show ?thesis .
qed

section \<open>Evaluation rules, error injection\<close>

lemma shiftIn_0: "shiftIn r (CHR ''0'') = 2 * r"
  by (simp add: shiftIn_def parseInt_0 toInt32_def)

lemma shiftIn_1: "shiftIn r (CHR ''1'') = 2 * r + 1"
  by (simp add: shiftIn_def parseInt_1 toInt32_def or_one_eq)

lemma replicate_numeral: "replicate (numeral k) c = c # replicate (pred_numeral k) c"
  by (simp add: numeral_eq_Suc)

lemma natToString_numeral:
  "natToString R (numeral k) =
     (if numeral k < R \<or> R < 2 then [digitChar (numeral k)]
      else natToString R (numeral k div R) @ [digitChar (numeral k mod R)])"
  by (rule natToString.simps)

lemma natToString_0: "natToString R 0 = [digitChar 0]"
  by (subst natToString.simps) auto

lemma natToString_1: "natToString R (Suc 0) = [digitChar (Suc 0)]"
  by (subst natToString.simps) auto

lemmas eval_simps = calculateCRC_def verifyCRC_def repeat_def remainderString_def lowMask_def
  topBit_def toInt32_def divStep_def shiftIn_0 shiftIn_1 numberToString_def
  natToString_numeral natToString_0 natToString_1
  padStart_def digitChar_def Let_def replicate_numeral

lemma flipped_codewords:
  "map (\<lambda>p. injectErrors ''10101101'' [Num p]) [0, 1, 2, 3, 4, 5, 6, 7]
   = [''00101101'', ''11101101'', ''10001101'', ''10111101'',
      ''10100101'', ''10101001'', ''10101111'', ''10101100'']"
  by (simp add: injectErrors_def flipAt_def)

lemma flipped_invalid_each:
  "\<not> isValid (verifyCRC ''00101101'' 19 4)"
  "\<not> isValid (verifyCRC ''11101101'' 19 4)"
  "\<not> isValid (verifyCRC ''10001101'' 19 4)"
  "\<not> isValid (verifyCRC ''10111101'' 19 4)"
  "\<not> isValid (verifyCRC ''10100101'' 19 4)"
  "\<not> isValid (verifyCRC ''10101001'' 19 4)"
  "\<not> isValid (verifyCRC ''10101111'' 19 4)"
  "\<not> isValid (verifyCRC ''10101100'' 19 4)"
  by (simp_all add: eval_simps)

lemma flipped_invalid:
  "list_all (\<lambda>s. \<not> isValid (verifyCRC s 19 4))
     [''00101101'', ''11101101'', ''10001101'', ''10111101'',
      ''10100101'', ''10101001'', ''10101111'', ''10101100'']"
  by (simp only: list.pred_inject flipped_invalid_each simp_thms)

lemma single_flips:
  "list_all (\<lambda>p. \<not> isValid (verifyCRC (injectErrors ''10101101'' [Num p]) 19 4))
     [0, 1, 2, 3, 4, 5, 6, 7]"
proof -
  have "list_all (\<lambda>s. \<not> isValid (verifyCRC s 19 4))
          (map (\<lambda>p. injectErrors ''10101101'' [Num p]) [0, 1, 2, 3, 4, 5, 6, 7])"
    unfolding flipped_codewords by (rule flipped_invalid)
  then show ?thesis
    by (simp only: list.pred_map comp_def)
qed

lemma vector_ok:
  "padStart 5 (CHR ''0'') (numberToString 2 (Num 19)) @ repeat (CHR ''0'') 3 = ''10011000''"
  "padStart 6 (CHR ''0'') (numberToString 2 (Num 37)) @ repeat (CHR ''0'') 3 = ''100101000''"
  "padStart 8 (CHR ''0'') (numberToString 2 (Num 137)) @ repeat (CHR ''0'') 3 = ''10001001000''"
  "padStart 9 (CHR ''0'') (numberToString 2 (Num 263)) @ repeat (CHR ''0'') 3 = ''100000111000''"
  "isValid (verifyCRC ''10011000'' 19 4)"
  "isValid (verifyCRC ''100101000'' 37 5)"
  "isValid (verifyCRC ''10001001000'' 137 7)"
  "isValid (verifyCRC ''100000111000'' 263 8)"
  by (simp_all add: eval_simps)

lemma registry_vectors:
  "list_all (\<lambda>(k, cfg).
      map_of CRC_POLYNOMIALS k = Some cfg
      \<and> length (binaryStr cfg) = width cfg + 1
      \<and> padStart (width cfg + 1) (CHR ''0'') (numberToString 2 (Num (polynomial cfg)))
          @ repeat (CHR ''0'') 3 = binaryStr cfg @ ''000''
      \<and> isValid (verifyCRC (binaryStr cfg @ ''000'') (polynomial cfg) (width cfg)))
     CRC_POLYNOMIALS"
  by (simp add: CRC_POLYNOMIALS_def vector_ok)

lemma length_flipAt: "length (flipAt s p) = length s"
  by (simp add: flipAt_def split: number.split)

lemma isBit_flipAt: "list_all isBit s \<Longrightarrow> list_all isBit (flipAt s p)"
  by (auto simp: flipAt_def list_all_iff isBit_def split: number.split
      dest!: set_update_subset_insert [THEN subsetD])

lemma flipAt_twice: "list_all isBit s \<Longrightarrow> flipAt (flipAt s p) p = s"
proof (cases p)
  case (Num i)
  assume b: "list_all isBit s"
  show ?thesis
  proof (cases "0 \<le> i \<and> i < int (length s)")
    case True
    then have n: "nat i < length s" by (simp add: nat_less_iff)
    with b have "isBit (s ! nat i)" by (simp add: list_all_length)
    then show ?thesis using True n Num
      by (auto simp: flipAt_def isBit_def list_update_same_conv)
  next
    case False
    then show ?thesis using Num by (auto simp: flipAt_def)
  qed
qed (simp_all add: flipAt_def)

lemma flipAt_out_of_range:
  "\<not> (case p of Num i \<Rightarrow> 0 \<le> i \<and> i < int (length s) | _ \<Rightarrow> False) \<Longrightarrow> flipAt s p = s"
  by (auto simp: flipAt_def split: number.splits)

lemma length_flipAll: "length (flipAll s ps) = length s"
  by (induction ps arbitrary: s) (simp_all add: length_flipAt)

lemma isBit_flipAll: "list_all isBit s \<Longrightarrow> list_all isBit (flipAll s ps)"
  by (induction ps arbitrary: s) (simp_all add: isBit_flipAt)

lemma flipAll_filter:
  "length s = n \<Longrightarrow>
   flipAll s ps = flipAll s (filter (\<lambda>p. case p of Num i \<Rightarrow> 0 \<le> i \<and> i < int n | _ \<Rightarrow> False) ps)"
proof (induction ps arbitrary: s)
  case Nil
  then show ?case by simp
next
  case (Cons p ps)
  have "length (flipAt s p) = n" using Cons.prems by (simp add: length_flipAt)
  then have IH: "flipAll (flipAt s p) ps
      = flipAll (flipAt s p) (filter (\<lambda>p. case p of Num i \<Rightarrow> 0 \<le> i \<and> i < int n | _ \<Rightarrow> False) ps)"
    by (rule Cons.IH)
  show ?case
  proof (cases "case p of Num i \<Rightarrow> 0 \<le> i \<and> i < int n | _ \<Rightarrow> False")
    case True
    then show ?thesis using IH by simp
  next
    case False
    then have "flipAt s p = s" using Cons.prems by (intro flipAt_out_of_range) auto
    then show ?thesis using False IH by simp
  qed
qed

lemma flipAll_even: "list_all isBit s \<Longrightarrow> flipAll s (replicate (2 * k) p) = s"
  by (induction k) (simp_all add: flipAt_twice)

section \<open>The reference algorithm and the code\<close>

lemma spec_bit_le: "spec_bit c = 0 \<or> spec_bit c = 1"
  by (simp add: spec_bit_def)

lemma spec_shift_arith:
  assumes "b = 0 \<or> b = 1"
  shows "push_bit 1 (n::nat) OR b = 2 * n + b"
proof -
  have p: "push_bit 1 n = 2 * n" by (simp add: push_bit_eq_mult)
  from assms show ?thesis
  proof
    assume "b = 0"
    then show ?thesis by (simp add: p)
  next
    assume b: "b = 1"
    have "2 * n OR (1::nat) = 2 * n + 1"
      unfolding or_one_eq by simp
    then show ?thesis
      unfolding p b .
  qed
qed

lemma bit_spec_shift:
  assumes "b = 0 \<or> b = (1::nat)" "1 \<le> w"
  shows "bit (2 * n + b) w = bit n (w - 1)"
proof -
  obtain k where w: "w = Suc k" using assms(2) by (cases w) auto
  have "(2 * n + b) div 2 = n" using assms(1) by auto
  then show ?thesis by (simp add: w bit_Suc)
qed

lemma spec_step_refines:
  assumes "isBit c" "1 \<le> w" "w \<le> 31"
  shows "word_of_nat (spec_step P w n (spec_bit c)) = divStep (int P) w (word_of_nat n) c"
proof -
  have b: "spec_bit c = 0 \<or> spec_bit c = 1" by (rule spec_bit_le)
  have sh: "push_bit 1 n OR spec_bit c = 2 * n + spec_bit c"
    using b by (rule spec_shift_arith)
  have tb: "bit (2 * n + spec_bit c) w = bit n (w - 1)"
    using b assms(2) by (rule bit_spec_shift)
  have wb: "bit (word_of_nat n :: int32) (w - 1) = bit n (w - 1)"
    using assms(3) by (auto simp: bit_of_nat_iff possible_bit_word)
  have si: "shiftIn (word_of_nat n) c = word_of_nat (2 * n + spec_bit c)"
    using assms(1) by (simp add: shiftIn_arith spec_bit_def)
  have L: "spec_step P w n (spec_bit c)
      = (if bit n (w - 1) then (2 * n + spec_bit c) XOR P else 2 * n + spec_bit c)"
    unfolding spec_step_def Let_def sh tb ..
  have R: "divStep (int P) w (word_of_nat n) c
      = word_of_nat (2 * n + spec_bit c) XOR (if bit n (w - 1) then word_of_nat P else 0)"
    unfolding divStep_alt [OF assms] wb si by (simp add: toInt32_def)
  show ?thesis
    unfolding L R by (simp add: of_nat_xor_eq)
qed

lemma spec_loop_refines:
  assumes "1 \<le> w" "w \<le> 31"
  shows "list_all isBit cs \<Longrightarrow>
         word_of_nat (foldl (spec_step P w) n (map spec_bit cs)) = divLoop (int P) w cs (word_of_nat n)"
proof (induction cs arbitrary: n)
  case Nil
  then show ?case by simp
next
  case (Cons c cs)
  then have "isBit c" and "list_all isBit cs" by simp_all
  then show ?case
    using Cons.IH [of "spec_step P w n (spec_bit c)"] assms
    by (simp add: spec_step_refines)
qed

lemma rev_upt_Suc: "rev [0..<Suc n] = map Suc (rev [0..<n]) @ [0]"
proof -
  have "[0..<Suc n] = 0 # map Suc [0..<n]"
    by (simp add: upt_conv_Cons map_Suc_upt del: upt_Suc)
  then show ?thesis by (simp add: rev_map del: upt_Suc)
qed

lemma fixedDigits_bits:
  "fixedDigits 2 w v = map (\<lambda>i. if bit v i then CHR ''1'' else CHR ''0'') (rev [0..<w])"
proof (induction w arbitrary: v)
  case 0
  then show ?case by simp
next
  case (Suc w)
  have "digitChar (v mod 2) = (if bit v 0 then CHR ''1'' else CHR ''0'')"
    by (cases "even v") (simp_all add: bit_0 digitChar_0 digitChar_1 odd_iff_mod_2_eq_one)
  then show ?case
    unfolding rev_upt_Suc by (simp add: Suc.IH bit_Suc comp_def del: upt_Suc)
qed

lemma spec_remainder_eq: "spec_remainder w n = fixedDigits 2 w n"
  by (simp add: spec_remainder_def fixedDigits_bits)

lemma fixedDigits_take_bit: "fixedDigits 2 w (take_bit w v) = fixedDigits 2 w v"
  unfolding fixedDigits_bits by (simp add: bit_take_bit_iff)

lemma unat_take_bit_of_nat:
  assumes "w \<le> 31"
  shows "unat (take_bit w (word_of_nat n :: int32)) = take_bit w n"
proof -
  have "unat (take_bit w (word_of_nat n :: int32)) = take_bit w (take_bit 32 n)"
    by (simp add: unsigned_take_bit_eq unsigned_of_nat)
  also have "\<dots> = take_bit w n"
    using assms by (simp add: min_def)
  finally show ?thesis .
qed

lemma remainderString_spec:
  assumes "1 \<le> w" "w \<le> 31" "list_all isBit cs"
  shows "remainderString w (divLoop (int P) w cs 0)
       = spec_remainder w (foldl (spec_step P w) 0 (map spec_bit cs))"
proof -
  let ?n = "foldl (spec_step P w) 0 (map spec_bit cs)"
  have "divLoop (int P) w cs 0 = word_of_nat ?n"
    using spec_loop_refines [OF assms(1,2,3), of P 0] by simp
  then show ?thesis
    by (simp add: remainderString_eq [OF assms(1,2)] unat_take_bit_of_nat [OF assms(2)]
          fixedDigits_take_bit spec_remainder_eq)
qed



section \<open>Hexadecimal and binary text\<close>

lemma hex_cases:
  assumes "isHexDigit c"
  shows "c \<in> set ''0123456789ABCDEFabcdef''"
proof -
  define n where "n = (of_char c :: nat)"
  from assms have "n \<in> set [48, 49, 50, 51, 52, 53, 54, 55, 56, 57, 65, 66, 67, 68, 69, 70,
      97, 98, 99, 100, 101, 102]"
    unfolding isHexDigit_def Let_def n_def [symmetric] by simp arith
  then have "char_of n \<in> set (map char_of [48, 49, 50, 51, 52, 53, 54, 55, 56, 57, 65, 66, 67, 68, 69, 70,
      97, 98, 99, 100, 101, 102 :: nat])"
    unfolding set_map by (rule imageI)
  moreover have "map char_of [48, 49, 50, 51, 52, 53, 54, 55, 56, 57, 65, 66, 67, 68, 69, 70,
      97, 98, 99, 100, 101, 102 :: nat] = ''0123456789ABCDEFabcdef''"
    by (simp add: char_of_def bit_Suc_0_iff)
  moreover have "char_of n = c" by (simp add: n_def)
  ultimately show ?thesis
    by (simp only:)
qed


lemma hex_table:
  "list_all (\<lambda>c. (case digitValue c of None \<Rightarrow> False
                     | Some d \<Rightarrow> d < 16 \<and> toUpperChar (digitChar d) = toUpperChar c
                                \<and> (d = 0 \<longrightarrow> c = CHR ''0''))
                \<and> \<not> isWhiteSpace c \<and> c \<noteq> CHR ''+'' \<and> c \<noteq> CHR ''-''
                \<and> c \<noteq> CHR ''x'' \<and> c \<noteq> CHR ''X''
                \<and> (toUpperChar c = CHR ''0'' \<longrightarrow> c = CHR ''0''))
     ''0123456789ABCDEFabcdef''"
  by (simp add: digitValue_def digitChar_def toUpperChar_def isWhiteSpace_def char_of_def
      bit_Suc_0_iff)

lemma hex_facts:
  assumes "isHexDigit c"
  obtains d where "digitValue c = Some d" "d < 16" "toUpperChar (digitChar d) = toUpperChar c"
    "d = 0 \<longrightarrow> c = CHR ''0''" "\<not> isWhiteSpace c" "c \<noteq> CHR ''+''" "c \<noteq> CHR ''-''"
    "c \<noteq> CHR ''x''" "c \<noteq> CHR ''X''" "toUpperChar c = CHR ''0'' \<longrightarrow> c = CHR ''0''"
proof -
  from hex_table hex_cases [OF assms]
  have "(case digitValue c of None \<Rightarrow> False
                     | Some d \<Rightarrow> d < 16 \<and> toUpperChar (digitChar d) = toUpperChar c
                                \<and> (d = 0 \<longrightarrow> c = CHR ''0''))
                \<and> \<not> isWhiteSpace c \<and> c \<noteq> CHR ''+'' \<and> c \<noteq> CHR ''-''
                \<and> c \<noteq> CHR ''x'' \<and> c \<noteq> CHR ''X''
                \<and> (toUpperChar c = CHR ''0'' \<longrightarrow> c = CHR ''0'')"
    unfolding list_all_iff by blast
  then show ?thesis
    using that by (cases "digitValue c") auto
qed

lemma hex_radixDigit: "isHexDigit c \<Longrightarrow> isRadixDigit 16 c"
  by (erule hex_facts) (simp add: isRadixDigit_def)

lemma parseInt_plain:
  assumes "t \<noteq> []" "list_all (isRadixDigit R) t" "2 \<le> R" "R \<le> 36"
    and "\<not> isWhiteSpace (hd t)" "hd t \<noteq> CHR ''+''" "hd t \<noteq> CHR ''-''"
    and "take 2 t \<noteq> ''0x''" "take 2 t \<noteq> ''0X''"
  shows "parseInt t (Some R) = toNumber (int (digitsValue R t))"
proof -
  obtain x xs where t: "t = x # xs" using assms(1) by (cases t) auto
  have d: "dropWhile isWhiteSpace t = t" using assms(5) by (simp add: t)
  have tw: "takeWhile (isRadixDigit R) t = t"
    using assms(2) by (simp add: takeWhile_eq_all_conv list_all_iff)
  show ?thesis
    unfolding parseInt_def d Let_def
    using assms(1,3,4,6,7,8,9) by (simp add: tw del: takeWhile_eq_all_conv)
qed

lemma no_hex_prefix:
  assumes "list_all (\<lambda>c. c \<noteq> CHR ''x'' \<and> c \<noteq> CHR ''X'') t"
  shows "take 2 t \<noteq> ''0x''" "take 2 t \<noteq> ''0X''"
proof -
  have "CHR ''x'' \<notin> set (take 2 t)" "CHR ''X'' \<notin> set (take 2 t)"
    using assms by (auto simp: list_all_iff dest: in_set_takeD)
  then show "take 2 t \<noteq> ''0x''" "take 2 t \<noteq> ''0X''" by auto
qed

lemma parseInt_hex:
  assumes "testHex h"
  shows "parseInt h (Some 16) = toNumber (int (digitsValue 16 h))"
proof -
  from assms have ne: "h \<noteq> []" and hx: "list_all isHexDigit h"
    by (simp_all add: testHex_def)
  from ne hx have hd: "isHexDigit (hd h)" by (cases h) simp_all
  have rd: "list_all (isRadixDigit 16) h"
    using hx by (auto simp: list_all_iff intro: hex_radixDigit)
  have nx: "list_all (\<lambda>c. c \<noteq> CHR ''x'' \<and> c \<noteq> CHR ''X'') h"
    using hx by (auto simp: list_all_iff elim: hex_facts)
  show ?thesis
    using ne rd
  proof (rule parseInt_plain)
    show "\<not> isWhiteSpace (hd h)" "hd h \<noteq> CHR ''+''" "hd h \<noteq> CHR ''-''"
      using hd by (auto elim: hex_facts)
    show "take 2 h \<noteq> ''0x''" "take 2 h \<noteq> ''0X''"
      using nx by (rule no_hex_prefix)+
  qed simp_all
qed

lemma bit_not_special:
  assumes "isBit c"
  shows "\<not> isWhiteSpace c" "c \<noteq> CHR ''+''" "c \<noteq> CHR ''-''" "c \<noteq> CHR ''x''" "c \<noteq> CHR ''X''"
    "isRadixDigit 2 c"
  using assms by (auto simp: isBit_def isWhiteSpace_def isRadixDigit_def digitValue_def)

lemma parseInt_binary:
  assumes "t \<noteq> []" "list_all isBit t"
  shows "parseInt t (Some 2) = toNumber (int (digitsValue 2 t))"
proof -
  from assms have hd: "isBit (hd t)" by (cases t) simp_all
  have rd: "list_all (isRadixDigit 2) t"
    using assms(2) by (auto simp: list_all_iff intro: bit_not_special(6))
  have nx: "list_all (\<lambda>c. c \<noteq> CHR ''x'' \<and> c \<noteq> CHR ''X'') t"
    using assms(2) by (auto simp: list_all_iff dest: bit_not_special(4,5))
  show ?thesis
    using assms(1) rd
  proof (rule parseInt_plain)
    show "\<not> isWhiteSpace (hd t)" "hd t \<noteq> CHR ''+''" "hd t \<noteq> CHR ''-''"
      using bit_not_special [OF hd] by simp_all
    show "take 2 t \<noteq> ''0x''" "take 2 t \<noteq> ''0X''"
      using nx by (rule no_hex_prefix)+
  qed simp_all
qed

lemma pow16: "(16::nat) ^ n = 2 ^ (n * 4)"
proof -
  have "(16::nat) ^ n = (2 ^ 4) ^ n" by simp
  also have "\<dots> = 2 ^ (4 * n)" by (rule power_mult [symmetric])
  finally show ?thesis by (simp only: mult.commute)
qed

lemma digitsValue_radix_bound:
  assumes "1 \<le> R"
  shows "list_all (isRadixDigit R) t \<Longrightarrow> digitsValue R t < R ^ length t"
proof (induction t rule: rev_induct)
  case Nil
  then show ?case by (simp add: digitsValue_Nil)
next
  case (snoc c t)
  then have IH: "digitsValue R t < R ^ length t" and c: "isRadixDigit R c" by simp_all
  from c obtain d where d: "digitValue c = Some d" "d < R"
    by (auto simp: isRadixDigit_def split: option.splits)
  from IH have "digitsValue R t + 1 \<le> R ^ length t" by simp
  then have "(digitsValue R t + 1) * R \<le> R ^ length t * R" by (rule mult_le_mono1)
  then have "digitsValue R t * R + d < R ^ length t * R" using d(2) by (simp add: algebra_simps)
  then show ?case by (simp add: digitsValue_snoc d(1) mult.commute)
qed

lemma hex_value_bound:
  assumes "testHex h"
  shows "digitsValue 16 h < 2 ^ (length h * 4)" "1 \<le> length h * 4"
proof -
  from assms have ne: "h \<noteq> []" and hx: "list_all isHexDigit h"
    by (simp_all add: testHex_def)
  have rd: "list_all (isRadixDigit 16) h"
    using hx by (auto simp: list_all_iff intro: hex_radixDigit)
  have "digitsValue 16 h < 16 ^ length h"
    using rd by (intro digitsValue_radix_bound) simp_all
  also have "(16::nat) ^ length h = 2 ^ (length h * 4)"
    by (rule pow16)
  finally show "digitsValue 16 h < 2 ^ (length h * 4)" .
  show "1 \<le> length h * 4" using ne by (cases h) simp_all
qed

lemma hexToBinary_eq:
  assumes "testHex h" "toNumber (int (digitsValue 16 h)) = Num (int v)" "v < 2 ^ (length h * 4)"
  shows "hexToBinary h = fixedDigits 2 (length h * 4) v"
proof -
  have "hexToBinary h = padStart (length h * 4) (CHR ''0'') (natToString 2 v)"
    by (simp add: hexToBinary_def parseInt_hex [OF assms(1)] assms(2) numberToString_def)
  also have "\<dots> = fixedDigits 2 (length h * 4) v"
    using assms(3) hex_value_bound(2) [OF assms(1)] by (intro padStart_fixedDigits) simp_all
  finally show ?thesis .
qed

lemma binaryToHex_fixedDigits:
  assumes "1 \<le> n" "v < 2 ^ n" "toNumber (int v) = Num (int u)"
  shows "binaryToHex (fixedDigits 2 n v) = toUpperCase (natToString 16 u)"
proof -
  have "length (fixedDigits 2 n v) = n" by (rule length_fixedDigits)
  then have fne: "fixedDigits 2 n v \<noteq> []" using assms(1) by auto
  have "parseInt (fixedDigits 2 n v) (Some 2) = toNumber (int (digitsValue 2 (fixedDigits 2 n v)))"
    using fne isBit_fixedDigits by (rule parseInt_binary)
  also have "digitsValue 2 (fixedDigits 2 n v) = v"
    using assms(2) by (simp add: digitsValue_fixedDigits)
  finally show ?thesis
    by (simp add: binaryToHex_def assms(3) numberToString_def)
qed

lemma binaryToHex_hexToBinary:
  assumes "testHex h" "toNumber (int (digitsValue 16 h)) = Num (int (digitsValue 16 h))"
  shows "binaryToHex (hexToBinary h) = toUpperCase (natToString 16 (digitsValue 16 h))"
  using hexToBinary_eq [OF assms hex_value_bound(1) [OF assms(1)]]
    binaryToHex_fixedDigits [OF hex_value_bound(2) [OF assms(1)] hex_value_bound(1) [OF assms(1)] assms(2)]
  by simp

lemma hex_zero_value:
  "list_all isHexDigit t \<Longrightarrow> digitsValue 16 t = 0 \<Longrightarrow> t = replicate (length t) (CHR ''0'')"
proof (induction t rule: rev_induct)
  case Nil
  then show ?case by simp
next
  case (snoc c t)
  then have c: "isHexDigit c" and t: "list_all isHexDigit t" by simp_all
  from c obtain d where d: "digitValue c = Some d" "d = 0 \<longrightarrow> c = CHR ''0''"
    by (rule hex_facts)
  from snoc.prems(2) have "digitsValue 16 t = 0" and "d = 0"
    by (simp_all add: digitsValue_snoc d(1))
  then have "t = replicate (length t) (CHR ''0'')" and "c = CHR ''0''"
    using snoc.IH t d(2) by simp_all
  then have "t @ [c] = replicate (length t) (CHR ''0'') @ [CHR ''0'']" by simp
  then show ?case by (simp add: replicate_append_same)
qed

lemma hex_nonzero_value:
  assumes "digitsValue 16 t \<noteq> 0"
  shows "\<exists>x \<in> set t. x \<noteq> CHR ''0''"
proof (rule ccontr)
  assume "\<not> (\<exists>x \<in> set t. x \<noteq> CHR ''0'')"
  then have "t = replicate (length t) (CHR ''0'')"
    by (simp add: replicate_length_same)
  moreover have "digitsValue 16 (replicate n (CHR ''0'')) = 0" for n
    by (induction n) (simp_all add: digitsValue_Nil digitsValue_snoc digitValue_def
        flip: replicate_append_same)
  ultimately show False using assms by metis
qed

lemma toUpper_render:
  assumes "list_all isHexDigit h" "h \<noteq> []"
  shows "toUpperCase (natToString 16 (digitsValue 16 h)) = stripLeadingZeros (toUpperCase h)"
  using assms
proof (induction h rule: rev_induct)
  case Nil
  then show ?case by simp
next
  case (snoc c t)
  then have c: "isHexDigit c" and t: "list_all isHexDigit t" by simp_all
  from c obtain d where d: "digitValue c = Some d" "d < 16"
      "toUpperChar (digitChar d) = toUpperChar c"
      "toUpperChar c = CHR ''0'' \<longrightarrow> c = CHR ''0''"
    by (rule hex_facts)
  let ?v = "digitsValue 16 t"
  have val: "digitsValue 16 (t @ [c]) = ?v * 16 + d"
    by (simp add: digitsValue_snoc d(1))
  show ?case
  proof (cases "?v = 0")
    case True
    then have tz: "t = replicate (length t) (CHR ''0'')"
      using t by (intro hex_zero_value)
    have up0: "toUpperChar (CHR ''0'') = CHR ''0''" by (simp add: toUpperChar_def)
    have "natToString 16 (?v * 16 + d) = [digitChar d]"
      using True d(2) by (subst natToString.simps) simp
    then have L: "toUpperCase (natToString 16 (digitsValue 16 (t @ [c]))) = [toUpperChar c]"
      by (simp add: val toUpperCase_def d(3))
    have "toUpperCase (t @ [c]) = replicate (length t) (CHR ''0'') @ [toUpperChar c]"
      by (subst tz) (simp add: toUpperCase_def up0)
    then have "stripLeadingZeros (toUpperCase (t @ [c])) = [toUpperChar c]"
      by (auto simp: stripLeadingZeros_def Let_def dropWhile_append)
    with L show ?thesis by simp
  next
    case False
    then have tne: "t \<noteq> []" by (auto simp: digitsValue_Nil)
    have IH: "toUpperCase (natToString 16 ?v) = stripLeadingZeros (toUpperCase t)"
      using snoc.IH t tne by simp
    from False obtain x where x: "x \<in> set t" "x \<noteq> CHR ''0''"
      using hex_nonzero_value by blast
    from x(1) t have "isHexDigit x" by (simp add: list_all_iff)
    then have "toUpperChar x \<noteq> CHR ''0''"
      using x(2) by (auto elim: hex_facts)
    then have ex: "\<exists>y \<in> set (toUpperCase t). \<not> y = CHR ''0''"
      using x(1) by (auto simp: toUpperCase_def)
    then have dw: "dropWhile (\<lambda>c. c = CHR ''0'') (toUpperCase t @ [toUpperChar c])
        = dropWhile (\<lambda>c. c = CHR ''0'') (toUpperCase t) @ [toUpperChar c]"
      by (auto simp: dropWhile_append1)
    have nn: "dropWhile (\<lambda>c. c = CHR ''0'') (toUpperCase t) \<noteq> []"
      using ex by (simp add: dropWhile_eq_Nil_conv)
    have "?v * 16 + d \<ge> 16" using False by simp
    then have n: "natToString 16 (?v * 16 + d) = natToString 16 ?v @ [digitChar d]"
      using d(2) by (subst natToString.simps) simp
    have us: "toUpperCase (t @ [c]) = toUpperCase t @ [toUpperChar c]"
      by (simp add: toUpperCase_def)
    have "toUpperCase (natToString 16 (digitsValue 16 (t @ [c])))
        = toUpperCase (natToString 16 ?v) @ [toUpperChar c]"
      unfolding val n by (simp add: toUpperCase_def d(3))
    also have "\<dots> = stripLeadingZeros (toUpperCase t) @ [toUpperChar c]"
      unfolding IH ..
    also have "\<dots> = stripLeadingZeros (toUpperCase (t @ [c]))"
      unfolding us stripLeadingZeros_def Let_def dw using nn by auto
    finally show ?thesis .
  qed
qed

lemma hex_roundtrip_general:
  assumes "testHex h" "toNumber (int (digitsValue 16 h)) = Num (int (digitsValue 16 h))"
  shows "binaryToHex (hexToBinary h) = stripLeadingZeros (toUpperCase h)"
proof -
  from assms(1) have "list_all isHexDigit h" "h \<noteq> []"
    by (simp_all add: testHex_def)
  then show ?thesis
    by (simp add: binaryToHex_hexToBinary [OF assms] toUpper_render)
qed

lemma short_hex_exact:
  assumes "testHex h" "length h \<le> 13"
  shows "toNumber (int (digitsValue 16 h)) = Num (int (digitsValue 16 h))"
proof (rule toNumber_small)
  have "digitsValue 16 h < 2 ^ (length h * 4)"
    using assms(1) by (rule hex_value_bound)
  also have "\<dots> \<le> (2::nat) ^ 53"
    using assms(2) by (intro power_increasing) simp_all
  finally show "nat \<bar>int (digitsValue 16 h)\<bar> < 2 ^ 53" by simp
qed

lemma strip_no_leading_zero:
  assumes "testHex h" "hd h \<noteq> CHR ''0''"
  shows "stripLeadingZeros (toUpperCase h) = toUpperCase h"
proof -
  from assms(1) obtain x xs where h: "h = x # xs" and x: "isHexDigit x"
    by (cases h) (auto simp: testHex_def)
  from x assms(2) have "toUpperChar x \<noteq> CHR ''0''"
    by (auto simp: h elim: hex_facts)
  then show ?thesis
    by (simp add: h stripLeadingZeros_def toUpperCase_def)
qed

section \<open>Rounding, input that is not binary, and wrapping widths\<close>

lemma bitLength_numeral: "bitLength (numeral k) = 1 + bitLength (numeral k div 2)"
  by (subst bitLength.simps) simp

lemma bitLength_0: "bitLength 0 = 0"
  by (subst bitLength.simps) simp

lemma bitLength_1: "bitLength (Suc 0) = 1"
  by (subst bitLength.simps) (simp add: bitLength_0)

lemma value_big: "digitsValue 16 ''20000000000001'' = 9007199254740993"
  by (simp add: digitsValue_def digitValue_def)

lemma bitLength_big: "bitLength 9007199254740993 = 54"
  by (simp add: bitLength_numeral bitLength_0 bitLength_1)

lemma bitLength_big2: "bitLength 9007199254740992 = 54"
  by (simp add: bitLength_numeral bitLength_0 bitLength_1)

lemma toNumber_big: "toNumber 9007199254740993 = Num 9007199254740992"
  by (simp add: toNumber_def roundMagnitude_def bitLength_big Let_def)

lemma toNumber_big2: "toNumber 9007199254740992 = Num 9007199254740992"
  by (simp add: toNumber_def roundMagnitude_def bitLength_big2 Let_def)

lemma render_big: "toUpperCase (natToString 16 9007199254740992) = ''20000000000000''"
  by (simp add: natToString_numeral natToString_0 natToString_1 digitChar_def toUpperCase_def
      toUpperChar_def)

lemma hex_big: "binaryToHex (hexToBinary ''20000000000001'') = ''20000000000000''"
proof -
  have t: "testHex ''20000000000001''"
    by (simp add: testHex_def isHexDigit_def)
  have a: "toNumber (int (digitsValue 16 ''20000000000001'')) = Num (int 9007199254740992)"
    by (simp add: value_big toNumber_big)
  have b: "(9007199254740992::nat) < 2 ^ (length ''20000000000001'' * 4)"
    by simp
  have c: "toNumber (int 9007199254740992) = Num (int 9007199254740992)"
    by (simp add: toNumber_big2)
  have "hexToBinary ''20000000000001'' = fixedDigits 2 (length ''20000000000001'' * 4) 9007199254740992"
    using t a b by (rule hexToBinary_eq)
  moreover have "binaryToHex (fixedDigits 2 (length ''20000000000001'' * 4) 9007199254740992)
      = toUpperCase (natToString 16 9007199254740992)"
    using _ b c by (rule binaryToHex_fixedDigits) simp
  ultimately show ?thesis by (simp only: render_big)
qed
















lemma reference_agrees:
  assumes "list_all isBit bits" and "1 \<le> w" and "w \<le> 31"
  shows "spec_divide bits P w = Inr (remainder (verifyCRC bits (int P) w))
       \<and> spec_divide (bits @ repeat (CHR ''0'') w) P w = Inr (calculateCRC bits (int P) w)
       \<and> spec_divide (bits @ ''0000'') 19 4 = Inr (crc (encCalculateCRC bits))
       \<and> length (calculateCRC bits (int P) w) = w"
proof -
  have z: "list_all isBit (bits @ repeat (CHR ''0'') w)"
    using assms(1) by (auto simp: repeat_def isBit_0 list_all_iff)
  have a: "spec_divide bits P w = Inr (remainder (verifyCRC bits (int P) w))"
    using assms by (simp add: spec_divide_def verifyCRC_def Let_def remainderString_spec)
  have b: "spec_divide (bits @ repeat (CHR ''0'') w) P w = Inr (calculateCRC bits (int P) w)"
    using assms(2,3) z
    by (simp add: spec_divide_def calculateCRC_def Let_def remainderString_spec [OF assms(2,3) z])
  have z4: "list_all isBit (bits @ ''0000'')"
    using assms(1) by (simp add: isBit_0)
  have w4: "(1::nat) \<le> 4" "(4::nat) \<le> 31" by simp_all
  have e: "crc (encCalculateCRC bits) = remainderString 4 (divLoop 19 4 (bits @ ''0000'') 0)"
    by (simp add: encCalculateCRC_crc calculateCRC_def repeat_def POLYNOMIAL_def CRC_WIDTH_def
          replicate_numeral)
  have r: "remainderString 4 (divLoop 19 4 (bits @ ''0000'') 0)
      = spec_remainder 4 (foldl (spec_step 19 4) 0 (map spec_bit (bits @ ''0000'')))"
    using remainderString_spec [OF w4 z4, of 19] by (simp only: of_nat_numeral)
  have "spec_divide (bits @ ''0000'') 19 4
      = Inr (spec_remainder 4 (foldl (spec_step 19 4) 0 (map spec_bit (bits @ ''0000''))))"
    using z4 unfolding spec_divide_def by (simp del: foldl_append map_append)
  then have c: "spec_divide (bits @ ''0000'') 19 4 = Inr (crc (encCalculateCRC bits))"
    unfolding e r .
  from a b c calculateCRC_shape(2) [OF assms(2,3)] show ?thesis by simp
qed

section \<open>Properties stated by the specification\<close>

text \<open>
  C1. Round trip: for every registry configuration and every non-empty binary string \<open>d\<close>,
  verifying the codeword \<open>d + calculateCRC(d, polynomial, width)\<close> with \<open>verifyCRC\<close> gives
  an all-zero remainder and \<open>isValid = true\<close>.
\<close>

theorem roundtrip_registry:
  assumes "(k, cfg) \<in> set CRC_POLYNOMIALS" and "testBinary d"
  shows "verifyCRC (d @ calculateCRC d (polynomial cfg) (width cfg)) (polynomial cfg) (width cfg)
       = \<lparr>isValid = True, remainder = repeat (CHR ''0'') (width cfg)\<rparr>"
  using registry_width [OF assms(1)] by (rule roundtrip_general)

theorem roundtrip_registry_witness:
  "(''CRC-8'', \<lparr>name = ''CRC-8'', polynomial = 263, width = 8,
                 binaryStr = ''100000111'', formula = ''z^8 + z^2 + z + 1''\<rparr>)
     \<in> set CRC_POLYNOMIALS
   \<and> testBinary ''101100011101''
   \<and> verifyCRC (''101100011101'' @ calculateCRC ''101100011101'' 263 8) 263 8
       = \<lparr>isValid = True, remainder = repeat (CHR ''0'') 8\<rparr>"
proof -
  let ?cfg = "\<lparr>name = ''CRC-8'', polynomial = 263, width = 8,
                binaryStr = ''100000111'', formula = ''z^8 + z^2 + z + 1''\<rparr>"
  have a: "(''CRC-8'', ?cfg) \<in> set CRC_POLYNOMIALS"
    by (simp add: CRC_POLYNOMIALS_def)
  have b: "testBinary ''101100011101''"
    by (simp add: testBinary_def isBit_def)
  show ?thesis
    using a b roundtrip_registry [OF a b] by simp
qed

text \<open>
  C2, as the code has it. The division engine follows the reference algorithm of the
  specification for every width from 1 to 31: on binary input and for every polynomial,
  \<open>verifyCRC\<close> returns what the reference algorithm returns on the same bits,
  \<open>calculateCRC\<close> what it returns on the data followed by \<open>width\<close> zero bits (a string
  of exactly \<open>width\<close> characters), and the encoder's \<open>calculateCRC\<close> what it returns for
  CRC-4.  At width 32, which the specification admits, the 32-bit shift of the code tests
  bit 0 of the register and the two differ (the counterexample).
\<close>

theorem division_follows_reference:
  assumes "list_all isBit bits" and "1 \<le> w" and "w \<le> 31"
  shows "spec_divide bits P w = Inr (remainder (verifyCRC bits (int P) w))
       \<and> spec_divide (bits @ repeat (CHR ''0'') w) P w = Inr (calculateCRC bits (int P) w)
       \<and> spec_divide (bits @ ''0000'') 19 4 = Inr (crc (encCalculateCRC bits))
       \<and> length (calculateCRC bits (int P) w) = w"
  using assms by (rule reference_agrees)

theorem division_follows_reference_witness:
  "list_all isBit ''1011'' \<and> (1::nat) \<le> 4 \<and> (4::nat) \<le> 31
   \<and> spec_divide ''1011'' 19 4 = Inr (remainder (verifyCRC ''1011'' 19 4))
   \<and> spec_divide (''1011'' @ repeat (CHR ''0'') 4) 19 4 = Inr (calculateCRC ''1011'' 19 4)
   \<and> spec_divide (''1011'' @ ''0000'') 19 4 = Inr (crc (encCalculateCRC ''1011''))
   \<and> length (calculateCRC ''1011'' 19 4) = 4"
proof -
  have a: "list_all isBit ''1011''"
    by (simp add: isBit_def)
  have b: "(1::nat) \<le> 4" and c: "(4::nat) \<le> 31"
    by simp_all
  show ?thesis
    using a b c division_follows_reference [OF a b c, of 19] by simp
qed

theorem division_width_32_counterexample:
  "list_all isBit ''1''
   \<and> spec_divide ''1'' 4374732215 32 = Inr (replicate 31 (CHR ''0'') @ ''1'')
   \<and> verifyCRC ''1'' 4374732215 32
       = \<lparr>isValid = True, remainder = replicate 32 (CHR ''0'')\<rparr>"
proof -
  have "spec_divide ''1'' 4374732215 32 = Inr (spec_remainder 32 1)"
    by (simp add: spec_divide_def isBit_def spec_step_def spec_bit_def)
  moreover have "spec_remainder 32 1 = fixedDigits 2 32 1"
    by (rule spec_remainder_eq)
  moreover have "fixedDigits 2 32 1 = replicate 31 (CHR ''0'') @ ''1''"
    by (simp add: numeral_eq_Suc fixedDigits_zero digitChar_1 replicate_append_same)
  moreover have "verifyCRC ''1'' 4374732215 32
       = \<lparr>isValid = True, remainder = replicate 32 (CHR ''0'')\<rparr>"
    by (simp add: eval_simps)
  ultimately show ?thesis by (simp add: isBit_def)
qed

text \<open>
  C3. The two verification procedures agree: for every binary codeword at least as long
  as the CRC width, the encoder's \<open>handleVerify\<close> (recompute the CRC of the leading bits
  and compare it with the trailing four) reports valid exactly when \<open>verifyCRC\<close> divides
  the whole codeword to an all-zero remainder.
\<close>

theorem handleVerify_agrees_verifyCRC:
  assumes "testBinary (testData st)" and "CRC_WIDTH \<le> length (testData st)"
  shows "encIsValid (handleVerify st)
       = Some (isValid (verifyCRC (testData st) POLYNOMIAL CRC_WIDTH))"
proof -
  let ?t = "testData st"
  let ?d = "sliceInit ?t CRC_WIDTH" and ?u = "sliceLast ?t CRC_WIDTH"
  have split: "?t = ?d @ ?u" by (simp add: sliceInit_def sliceLast_def)
  have len: "length ?u = CRC_WIDTH" using assms(2) by (simp add: sliceLast_def)
  have "list_all isBit ?t" using assms(1) by (simp add: testBinary_def)
  then have bits: "list_all isBit ?u"
    by (simp add: sliceLast_def list_all_iff) (meson in_set_dropD)
  have w: "1 \<le> CRC_WIDTH" "CRC_WIDTH \<le> 31" by (simp_all add: CRC_WIDTH_def)
  have "isValid (verifyCRC (?d @ ?u) POLYNOMIAL CRC_WIDTH) \<longleftrightarrow> ?u = calculateCRC ?d POLYNOMIAL CRC_WIDTH"
    using w bits len by (rule verify_iff)
  then have "isValid (verifyCRC ?t POLYNOMIAL CRC_WIDTH) \<longleftrightarrow> ?u = crc (encCalculateCRC ?d)"
    using split by (simp add: encCalculateCRC_crc)
  then show ?thesis using assms by (simp add: handleVerify_def Let_def)
qed

theorem handleVerify_agrees_verifyCRC_witness:
  "testBinary ''10101101'' \<and> CRC_WIDTH \<le> length ''10101101''
   \<and> encIsValid (handleVerify (initialEncState\<lparr>testData := ''10101101''\<rparr>))
       = Some (isValid (verifyCRC ''10101101'' POLYNOMIAL CRC_WIDTH))"
proof -
  let ?st = "initialEncState\<lparr>testData := ''10101101''\<rparr>"
  have a: "testBinary (testData ?st)"
    by (simp add: testBinary_def isBit_def)
  have b: "CRC_WIDTH \<le> length (testData ?st)"
    by (simp add: CRC_WIDTH_def)
  show ?thesis
    using a b handleVerify_agrees_verifyCRC [OF a b] by simp
qed

text \<open>
  C4. The CRC-4 fixture: with polynomial 10011 and width 4, \<open>calculateCRC("1010")\<close> is
  \<open>1101\<close> in both components, and the codeword is \<open>10101101\<close>.
\<close>

theorem crc4_fixture:
  "calculateCRC ''1010'' 19 4 = ''1101''
   \<and> crc (encCalculateCRC ''1010'') = ''1101''
   \<and> encodedData (encHandleEncode initialEncState) = ''10101101''
   \<and> encodedResult (snd (handleEncode
        (initialPSState\<lparr>inputFormat := Binary, binaryInput := ''1010''\<rparr>))) = ''10101101''"
proof -
  have a: "calculateCRC ''1010'' 19 4 = ''1101''"
    by (simp add: eval_simps)
  then have b: "crc (encCalculateCRC ''1010'') = ''1101''"
    by (simp add: encCalculateCRC_crc POLYNOMIAL_def CRC_WIDTH_def)
  have c: "encodedData (encHandleEncode initialEncState) = ''10101101''"
    by (simp add: encHandleEncode_def initialEncState_def testBinary_def isBit_def b Let_def)
  have d: "encodedResult (snd (handleEncode
        (initialPSState\<lparr>inputFormat := Binary, binaryInput := ''1010''\<rparr>))) = ''10101101''"
    by (simp add: handleEncode_def initialPSState_def CRC_POLYNOMIALS_def testBinary_def
          isBit_def a Let_def)
  from a b c d show ?thesis by simp
qed

text \<open>
  C5. Single-bit errors: flipping any one bit at a position 0 to 7 of the CRC-4 codeword
  \<open>10101101\<close> and verifying again gives \<open>isValid = false\<close>.
\<close>

theorem single_bit_errors_detected:
  assumes "0 \<le> pos" and "pos \<le> 7"
  shows "\<not> isValid (verifyCRC (injectErrors ''10101101'' [Num pos]) 19 4)"
proof -
  from assms have "pos \<in> set [0, 1, 2, 3, 4, 5, 6, 7]" by simp arith
  with single_flips show ?thesis unfolding list_all_iff by blast
qed

theorem single_bit_errors_detected_witness:
  "(0::int) \<le> 3 \<and> (3::int) \<le> 7
   \<and> \<not> isValid (verifyCRC (injectErrors ''10101101'' [Num 3]) 19 4)"
proof -
  have a: "(0::int) \<le> 3" and b: "(3::int) \<le> 7" by simp_all
  show ?thesis
    using a b single_bit_errors_detected [OF a b] by simp
qed

text \<open>
  C6. The undetectable vector: for every registry configuration the generated error
  vector is the binary representation of the polynomial (\<open>width + 1\<close> characters)
  followed by zero bits, it divides to an all-zero remainder, and the handler stores
  \<open>undetectableError = true\<close>.
\<close>

theorem undetectable_vector:
  assumes "(k, cfg) \<in> set CRC_POLYNOMIALS"
  shows "handleGenerateErrorVector (st\<lparr>selectedCRC := k\<rparr>)
       = (ToastSuccess ''Error vector generated'',
          st\<lparr>selectedCRC := k, errorVector := binaryStr cfg @ ''000'',
             undetectableError := True\<rparr>)
       \<and> length (binaryStr cfg) = width cfg + 1
       \<and> remainder (verifyCRC (binaryStr cfg @ ''000'') (polynomial cfg) (width cfg))
           = repeat (CHR ''0'') (width cfg)"
proof -
  from registry_vectors assms
  have m: "map_of CRC_POLYNOMIALS k = Some cfg"
    and l: "length (binaryStr cfg) = width cfg + 1"
    and e: "padStart (width cfg + 1) (CHR ''0'') (numberToString 2 (Num (polynomial cfg)))
          @ repeat (CHR ''0'') 3 = binaryStr cfg @ ''000''"
    and v: "isValid (verifyCRC (binaryStr cfg @ ''000'') (polynomial cfg) (width cfg))"
    unfolding list_all_iff by auto
  have h: "handleGenerateErrorVector (st\<lparr>selectedCRC := k\<rparr>)
       = (ToastSuccess ''Error vector generated'',
          st\<lparr>selectedCRC := k, errorVector := binaryStr cfg @ ''000'',
             undetectableError := True\<rparr>)"
    using m e v by (simp add: handleGenerateErrorVector_def Let_def)
  have r: "remainder (verifyCRC (binaryStr cfg @ ''000'') (polynomial cfg) (width cfg))
           = repeat (CHR ''0'') (width cfg)"
    using v by (simp add: verifyCRC_def Let_def)
  from h l r show ?thesis by simp
qed

theorem undetectable_vector_witness:
  "(''CRC-7'', \<lparr>name = ''CRC-7'', polynomial = 137, width = 7,
                 binaryStr = ''10001001'', formula = ''z^7 + z^3 + 1''\<rparr>)
     \<in> set CRC_POLYNOMIALS
   \<and> handleGenerateErrorVector (initialPSState\<lparr>selectedCRC := ''CRC-7''\<rparr>)
       = (ToastSuccess ''Error vector generated'',
          initialPSState\<lparr>selectedCRC := ''CRC-7'', errorVector := ''10001001000'',
             undetectableError := True\<rparr>)
   \<and> remainder (verifyCRC ''10001001000'' 137 7) = repeat (CHR ''0'') 7"
proof -
  let ?cfg = "\<lparr>name = ''CRC-7'', polynomial = 137, width = 7,
                binaryStr = ''10001001'', formula = ''z^7 + z^3 + 1''\<rparr>"
  have a: "(''CRC-7'', ?cfg) \<in> set CRC_POLYNOMIALS"
    by (simp add: CRC_POLYNOMIALS_def)
  show ?thesis
    using a undetectable_vector [OF a, of initialPSState] by simp
qed

text \<open>
  C7, as the code has it. For a valid hexadecimal string \<open>h\<close> whose value is a number
  that JavaScript holds exactly, \<open>binaryToHex(hexToBinary(h))\<close> is \<open>h.toUpperCase()\<close>
  without its leading zeros (\<open>0\<close> when \<open>h\<close> is all zeros), and \<open>h.toUpperCase()\<close> itself
  when \<open>h\<close> does not start with \<open>0\<close>.  The claim as stated fails on \<open>0A\<close>, which comes
  back as \<open>A\<close>, and on \<open>20000000000001\<close>, whose last bit \<open>parseInt\<close> loses.
\<close>

theorem hex_roundtrip_strips_zeros:
  assumes "testHex h"
    and "toNumber (int (digitsValue 16 h)) = Num (int (digitsValue 16 h))"
  shows "binaryToHex (hexToBinary h) = stripLeadingZeros (toUpperCase h)
       \<and> (hd h \<noteq> CHR ''0'' \<longrightarrow> binaryToHex (hexToBinary h) = toUpperCase h)"
  using hex_roundtrip_general [OF assms] strip_no_leading_zero [OF assms(1)] by simp

theorem hex_roundtrip_strips_zeros_witness:
  "testHex ''b1d'' \<and> toNumber (int (digitsValue 16 ''b1d'')) = Num (int (digitsValue 16 ''b1d''))
   \<and> hd ''b1d'' \<noteq> CHR ''0''
   \<and> binaryToHex (hexToBinary ''b1d'') = ''B1D''
   \<and> toUpperCase ''b1d'' = ''B1D''"
proof -
  have a: "testHex ''b1d''" by (simp add: testHex_def isHexDigit_def)
  have b: "toNumber (int (digitsValue 16 ''b1d'')) = Num (int (digitsValue 16 ''b1d''))"
    using a by (rule short_hex_exact) simp
  have c: "hd ''b1d'' \<noteq> CHR ''0''" by simp
  have d: "toUpperCase ''b1d'' = ''B1D''"
    by (simp add: toUpperCase_def toUpperChar_def char_of_def bit_Suc_0_iff)
  show ?thesis
    using a b c d hex_roundtrip_strips_zeros [OF a b] by (simp add: stripLeadingZeros_def)
qed

theorem hex_roundtrip_counterexample:
  "testHex ''0A'' \<and> binaryToHex (hexToBinary ''0A'') = ''A'' \<and> toUpperCase ''0A'' = ''0A''
   \<and> testHex ''20000000000001''
   \<and> binaryToHex (hexToBinary ''20000000000001'') = ''20000000000000''
   \<and> toUpperCase ''20000000000001'' = ''20000000000001''"
proof -
  have a: "testHex ''0A''" by (simp add: testHex_def isHexDigit_def)
  have e: "toNumber (int (digitsValue 16 ''0A'')) = Num (int (digitsValue 16 ''0A''))"
    using a by (rule short_hex_exact) simp
  have u: "toUpperCase ''0A'' = ''0A''"
    by (simp add: toUpperCase_def toUpperChar_def)
  have "stripLeadingZeros ''0A'' = ''A''"
    by (simp add: stripLeadingZeros_def)
  then have b: "binaryToHex (hexToBinary ''0A'') = ''A''"
    using u hex_roundtrip_general [OF a e] by simp
  have c: "testHex ''20000000000001''"
    by (simp add: testHex_def isHexDigit_def)
  have d: "toUpperCase ''20000000000001'' = ''20000000000001''"
    by (simp add: toUpperCase_def toUpperChar_def)
  from a b u c hex_big d show ?thesis by simp
qed




text \<open>
  C9. Error injection is its own inverse: on a binary codeword, injecting the same
  position twice (in one list, in two successive injections, or any even number of times)
  gives back the original codeword.
\<close>

theorem inject_twice:
  assumes "list_all isBit cw"
  shows "injectErrors cw [p, p] = cw
       \<and> injectErrors (injectErrors cw [p]) [p] = cw
       \<and> injectErrors cw (replicate (2 * k) p) = cw"
  using assms by (simp add: injectErrors_def flipAt_twice flipAll_even)

theorem inject_twice_witness:
  "list_all isBit ''10101101''
   \<and> injectErrors ''10101101'' [Num 2, Num 2] = ''10101101''
   \<and> injectErrors (injectErrors ''10101101'' [Num 2]) [Num 2] = ''10101101''
   \<and> injectErrors ''10101101'' (replicate (2 * 3) (Num 2)) = ''10101101''"
proof -
  have a: "list_all isBit ''10101101''"
    by (simp add: isBit_def)
  show ?thesis
    using a inject_twice [OF a, of "Num 2" 3] by simp
qed

text \<open>
  C10. Error injection keeps the shape of the codeword: for a binary codeword and any
  list of positions the result has the same length and is binary, and positions that
  are negative, not below the length, NaN or infinite change nothing and raise no error.
\<close>

theorem inject_shape:
  assumes "list_all isBit cw"
  shows "length (injectErrors cw ps) = length cw
       \<and> list_all isBit (injectErrors cw ps)
       \<and> injectErrors cw ps
         = injectErrors cw
             (filter (\<lambda>p. case p of Num i \<Rightarrow> 0 \<le> i \<and> i < int (length cw)
                          | _ \<Rightarrow> False) ps)"
  using assms flipAll_filter [of cw "length cw" ps]
  by (simp add: injectErrors_def length_flipAll isBit_flipAll)

theorem inject_shape_witness:
  "list_all isBit ''10101101''
   \<and> length (injectErrors ''10101101'' [Num 2, Num (- 1), Num 8, NaN, Infinity]) = length ''10101101''
   \<and> list_all isBit (injectErrors ''10101101'' [Num 2, Num (- 1), Num 8, NaN, Infinity])
   \<and> injectErrors ''10101101'' [Num 2, Num (- 1), Num 8, NaN, Infinity]
       = injectErrors ''10101101''
           (filter (\<lambda>p. case p of Num i \<Rightarrow> 0 \<le> i \<and> i < int (length ''10101101'')
                        | _ \<Rightarrow> False)
              [Num 2, Num (- 1), Num 8, NaN, Infinity])"
proof -
  have a: "list_all isBit ''10101101''"
    by (simp add: isBit_def)
  show ?thesis
    using a inject_shape [OF a, of "[Num 2, Num (- 1), Num 8, NaN, Infinity]"] by blast
qed

end
